theory Spec2Isabelle
  imports Main "HOL-Library.AList"
begin

section \<open>The marker tree combinators of \<^verbatim>\<open>src/index.ts\<close>\<close>

text \<open>
  The module exports three schema combinators, \<^verbatim>\<open>simple\<close>, \<^verbatim>\<open>complex\<close> and
  \<^verbatim>\<open>byKey\<close>. A schema is a function from a path string to an object. The objects
  carry getters and may be callable, so the model has
  \<^item> a store of objects (addresses are positions in a list, allocation appends);
  \<^item> own properties with the attributes that decide what \<^verbatim>\<open>Object.defineProperty\<close>
    and assignment do (writable, enumerable, configurable);
  \<^item> closures as data: a schema value, the getter \<^verbatim>\<open>() => child(`${value}/${key}`)\<close>
    and the arrow function \<^verbatim>\<open>(key) => schema(`${value}/${key}`)\<close> are each
    represented by the variables they capture, and run by \<open>invoke\<close>,
    \<open>read_property\<close> and \<open>call_function\<close>;
  \<^item> a log of the calls of schema values, in order, so that laziness can be
    stated: a call made by a caller, by a getter or by a keyed container is logged
    with the schema and the path it was given (the direct use that \<^verbatim>\<open>complex\<close>
    makes of the leaf constructor for its own base Marker is part of its body and
    is not a log entry);
  \<^item> \<^verbatim>\<open>TypeError\<close> as a value.

  Properties that the language gives to every function object (\<^verbatim>\<open>length\<close>,
  \<^verbatim>\<open>name\<close>) and members inherited from prototypes are not created by this
  module and are not part of the model: a property list holds the own properties
  that the module's code creates.
\<close>

subsection \<open>Keys and path strings\<close>

definition DATA_TEST_ATTR :: string where
  "DATA_TEST_ATTR = ''data-test''"

text \<open>
  The arrow function of \<^verbatim>\<open>byKey\<close> interpolates its argument into a template
  literal, which converts it to a string. The argument is a string or an
  integer-valued number (below \<open>10^21\<close> in magnitude, where the conversion is plain
  decimal notation).
\<close>

datatype key = StrKey string | NumKey int

fun digits :: "nat \<Rightarrow> string" where
  "digits n =
     (if n < 10 then [char_of (48 + n)]
      else digits (n div 10) @ [char_of (48 + n mod 10)])"

declare digits.simps [simp del]

fun to_string :: "key \<Rightarrow> string" where
  "to_string (StrKey s) = s"
| "to_string (NumKey n) = (if n < 0 then CHR ''-'' # digits (nat (- n)) else digits (nat n))"

text \<open>The template literal \<^verbatim>\<open>`${value}/${key}`\<close>, used by the getter and by the arrow function.\<close>

definition template_path :: "string \<Rightarrow> string \<Rightarrow> string" where
  "template_path value key = value @ ''/'' @ key"

subsection \<open>Schemas, closures, objects\<close>

text \<open>
  \<open>Simple\<close> is the function value \<^verbatim>\<open>simple\<close>; \<open>Complex nodes\<close> is the closure that
  \<^verbatim>\<open>complex(nodes)\<close> returns, with \<open>nodes\<close> the own enumerable properties of the
  argument in the order of \<^verbatim>\<open>Object.keys\<close>; \<open>ByKey schema\<close> is the closure that
  \<^verbatim>\<open>byKey(schema)\<close> returns. The keys of an object are pairwise different, so a list
  \<open>nodes\<close> stands for an object when the keys in it are (\<open>well_keyed\<close> below).
\<close>

datatype schema = Simple | Complex "(string \<times> schema) list" | ByKey schema

text \<open>\<open>Getter child value key\<close> is \<^verbatim>\<open>() => child(`${value}/${key}`)\<close>;
  \<open>KeyFn schema value\<close> is \<^verbatim>\<open>(key) => schema(`${value}/${key}`)\<close>.\<close>

datatype getter = Getter schema string string

datatype keyfn = KeyFn schema string

datatype jsval = Undefined | Str string | Ref nat

text \<open>
  \<open>DataProperty v writable enumerable configurable\<close> and
  \<open>AccessorProperty get enumerable configurable\<close> (no setter is ever defined).
\<close>

datatype property =
    DataProperty jsval bool bool bool
  | AccessorProperty getter bool bool

fun configurable :: "property \<Rightarrow> bool" where
  "configurable (DataProperty v w e c) = c"
| "configurable (AccessorProperty g e c) = c"

fun enumerable :: "property \<Rightarrow> bool" where
  "enumerable (DataProperty v w e c) = e"
| "enumerable (AccessorProperty g e c) = e"

datatype obj = Obj (props: "(string \<times> property) list") (callee: "keyfn option")

datatype error = TypeError

record state =
  heap :: "obj list"
  calls :: "(schema \<times> string) list"

definition init :: state where
  "init = \<lparr>heap = [], calls = []\<rparr>"

definition lookup :: "state \<Rightarrow> nat \<Rightarrow> obj option" where
  "lookup s a = (if a < length (heap s) then Some (heap s ! a) else None)"

definition store :: "nat \<Rightarrow> obj \<Rightarrow> state \<Rightarrow> state" where
  "store a ob s = s\<lparr>heap := (heap s)[a := ob]\<rparr>"

subsection \<open>Language primitives used by the module\<close>

text \<open>An object literal: a fresh object whose properties are writable, enumerable
  and configurable data properties.\<close>

definition object_literal :: "(string \<times> jsval) list \<Rightarrow> state \<Rightarrow> jsval \<times> state" where
  "object_literal entries s =
     (Ref (length (heap s)),
      s\<lparr>heap := heap s @ [Obj (map (\<lambda>(k, v). (k, DataProperty v True True True)) entries) None]\<rparr>)"

text \<open>An arrow function expression: a fresh function object without properties of the module's own.\<close>

definition function_literal :: "keyfn \<Rightarrow> state \<Rightarrow> jsval \<times> state" where
  "function_literal f s =
     (Ref (length (heap s)), s\<lparr>heap := heap s @ [Obj [] (Some f)]\<rparr>)"

text \<open>
  \<^verbatim>\<open>Object.defineProperty(o, key, { get: g })\<close> with a newly created function \<open>g\<close>.
  A new property is a non-enumerable, non-configurable accessor. A configurable
  property becomes an accessor in place and keeps its enumerable and configurable
  attributes. A non-configurable property cannot take a different getter: TypeError.
\<close>

fun define_property :: "jsval \<Rightarrow> string \<Rightarrow> getter \<Rightarrow> state \<Rightarrow> error + state" where
  "define_property (Ref a) key g s =
     (case lookup s a of
        None \<Rightarrow> Inl TypeError
      | Some ob \<Rightarrow>
          (case map_of (props ob) key of
             None \<Rightarrow>
               Inr (store a (Obj (props ob @ [(key, AccessorProperty g False False)]) (callee ob)) s)
           | Some cur \<Rightarrow>
               if configurable cur
               then Inr (store a (Obj (AList.update key (AccessorProperty g (enumerable cur) True)
                                        (props ob)) (callee ob)) s)
               else Inl TypeError))"
| "define_property Undefined key g s = Inl TypeError"
| "define_property (Str x) key g s = Inl TypeError"

text \<open>
  The assignment \<^verbatim>\<open>o.key = v\<close> in strict code: a missing property is created as a
  writable, enumerable, configurable data property; a writable data property is
  updated; anything else is a TypeError.
\<close>

fun set_property :: "jsval \<Rightarrow> string \<Rightarrow> jsval \<Rightarrow> state \<Rightarrow> error + state" where
  "set_property (Ref a) key v s =
     (case lookup s a of
        None \<Rightarrow> Inl TypeError
      | Some ob \<Rightarrow>
          (case map_of (props ob) key of
             None \<Rightarrow>
               Inr (store a (Obj (props ob @ [(key, DataProperty v True True True)]) (callee ob)) s)
           | Some (DataProperty old w e c) \<Rightarrow>
               if w
               then Inr (store a (Obj (AList.update key (DataProperty v w e c) (props ob))
                                        (callee ob)) s)
               else Inl TypeError
           | Some (AccessorProperty g e c) \<Rightarrow> Inl TypeError))"
| "set_property Undefined key v s = Inl TypeError"
| "set_property (Str x) key v s = Inl TypeError"

text \<open>\<^verbatim>\<open>xs.forEach(f)\<close>, stopping at the first exception.\<close>

fun forEach :: "('a \<Rightarrow> state \<Rightarrow> error + state) \<Rightarrow> 'a list \<Rightarrow> state \<Rightarrow> error + state" where
  "forEach f [] s = Inr s"
| "forEach f (x # xs) s = (case f x s of Inl e \<Rightarrow> Inl e | Inr s' \<Rightarrow> forEach f xs s')"

subsection \<open>The three combinators\<close>

text \<open>
  \<^verbatim>\<open>
  export const simple: Schema<Marker> = (value) => ({
    value,
    selector: `[${DATA_TEST_ATTR}='${value}']`,
    nodeProps: { [DATA_TEST_ATTR]: value },
  })
  \<close>
  Two objects are allocated, the inner literal and the Marker that refers to it. An
  address is only a name for an object, so the order of the two allocations is not
  observable; the inner literal is placed first.
\<close>

definition simple :: "string \<Rightarrow> state \<Rightarrow> jsval \<times> state" where
  "simple value s =
     (let (nodeProps, s1) = object_literal [(DATA_TEST_ATTR, Str value)] s
      in object_literal
           [(''value'', Str value),
            (''selector'', Str (''['' @ DATA_TEST_ATTR @ ''='' @ [CHR 0x27] @ value @ [CHR 0x27] @ '']'')),
            (''nodeProps'', nodeProps)] s1)"

text \<open>
  \<^verbatim>\<open>
  export function complex(nodes) {
    return (value: string) => {
      const result = simple(value)
      Object.keys(nodes).forEach((key) => {
        const child = nodes[key]
        Object.defineProperty(result, key, { get: () => child(`${value}/${key}`) })
      })
      return result
    }
  }
  \<close>
  \<open>complex nodes value s\<close> is the call \<^verbatim>\<open>complex(nodes)(value)\<close> in state \<open>s\<close>. The
  loop visits each key of \<open>nodes\<close> with the schema stored under it.
\<close>

definition complex :: "(string \<times> schema) list \<Rightarrow> string \<Rightarrow> state \<Rightarrow> error + jsval \<times> state" where
  "complex nodes value s =
     (let (result, s1) = simple value s
      in case forEach (\<lambda>(key, child). define_property result key (Getter child value key)) nodes s1 of
           Inl e \<Rightarrow> Inl e
         | Inr s2 \<Rightarrow> Inr (result, s2))"

text \<open>
  \<^verbatim>\<open>
  export function byKey(schema) {
    return (value: string) => {
      const result = ((key: string) => schema(`${value}/${key}`))
      result.value = value
      result.selector = `[${DATA_TEST_ATTR}='${value}']`
      result.nodeProps = { [DATA_TEST_ATTR]: value }
      return result
    }
  }
  \<close>
\<close>

definition byKey :: "schema \<Rightarrow> string \<Rightarrow> state \<Rightarrow> error + jsval \<times> state" where
  "byKey schema value s =
     (let (result, s1) = function_literal (KeyFn schema value) s
      in case set_property result ''value'' (Str value) s1 of
           Inl e \<Rightarrow> Inl e
         | Inr s2 \<Rightarrow>
             (case set_property result ''selector''
                     (Str (''['' @ DATA_TEST_ATTR @ ''='' @ [CHR 0x27] @ value @ [CHR 0x27] @ '']'')) s2 of
                Inl e \<Rightarrow> Inl e
              | Inr s3 \<Rightarrow>
                  (let (nodeProps, s4) = object_literal [(DATA_TEST_ATTR, Str value)] s3
                   in case set_property result ''nodeProps'' nodeProps s4 of
                        Inl e \<Rightarrow> Inl e
                      | Inr s5 \<Rightarrow> Inr (result, s5))))"

subsection \<open>Running schemas, getters and callable objects\<close>

text \<open>Calling a schema value with a path. The call is appended to the log first.\<close>

definition invoke :: "schema \<Rightarrow> string \<Rightarrow> state \<Rightarrow> error + jsval \<times> state" where
  "invoke S value s =
     (let s0 = s\<lparr>calls := calls s @ [(S, value)]\<rparr>
      in case S of
           Simple \<Rightarrow> Inr (simple value s0)
         | Complex nodes \<Rightarrow> complex nodes value s0
         | ByKey schema \<Rightarrow> byKey schema value s0)"

text \<open>
  The property read \<^verbatim>\<open>r.k\<close>: a data property gives its value, an accessor runs
  its getter, a missing own property gives \<^verbatim>\<open>undefined\<close>.
\<close>

fun read_slot :: "state \<Rightarrow> property \<Rightarrow> error + jsval \<times> state" where
  "read_slot s (DataProperty v w e c) = Inr (v, s)"
| "read_slot s (AccessorProperty (Getter child value key) e c) =
     invoke child (template_path value key) s"

definition read_property :: "state \<Rightarrow> jsval \<Rightarrow> string \<Rightarrow> error + jsval \<times> state" where
  "read_property s r k =
     (case r of
        Undefined \<Rightarrow> Inl TypeError
      | Str x \<Rightarrow> Inr (Undefined, s)
      | Ref a \<Rightarrow>
          (case lookup s a of
             None \<Rightarrow> Inl TypeError
           | Some ob \<Rightarrow>
               (case map_of (props ob) k of
                  None \<Rightarrow> Inr (Undefined, s)
                | Some p \<Rightarrow> read_slot s p)))"

text \<open>The call \<^verbatim>\<open>r(x)\<close>: only a function object can be called.\<close>

definition call_function :: "state \<Rightarrow> jsval \<Rightarrow> key \<Rightarrow> error + jsval \<times> state" where
  "call_function s r x =
     (case r of
        Undefined \<Rightarrow> Inl TypeError
      | Str y \<Rightarrow> Inl TypeError
      | Ref a \<Rightarrow>
          (case lookup s a of
             None \<Rightarrow> Inl TypeError
           | Some ob \<Rightarrow>
               (case callee ob of
                  None \<Rightarrow> Inl TypeError
                | Some (KeyFn schema value) \<Rightarrow>
                    invoke schema (template_path value (to_string x)) s)))"

subsection \<open>What a caller can observe of a value\<close>

text \<open>
  The view of a value down to a depth: a string is itself; an object is its own
  properties in order, each one read (a getter is run), and, for a function
  object, the map from an argument to the view of the call's result. Two values
  are structurally equal when their views agree at every depth.
\<close>

datatype view =
    VUndefined
  | VStr string
  | VObj "(string \<times> view) list" "(key \<Rightarrow> view) option"
  | VThrows
  | VDangling
  | VCut

fun observe :: "nat \<Rightarrow> state \<Rightarrow> jsval \<Rightarrow> view" where
  "observe d s Undefined = VUndefined"
| "observe d s (Str x) = VStr x"
| "observe 0 s (Ref a) = VCut"
| "observe (Suc d) s (Ref a) =
     (case lookup s a of
        None \<Rightarrow> VDangling
      | Some ob \<Rightarrow>
          VObj (map (\<lambda>(k, p). (k, case read_slot s p of
                                    Inl e \<Rightarrow> VThrows
                                  | Inr (v, s') \<Rightarrow> observe d s' v)) (props ob))
               (map_option (\<lambda>f x. case call_function s (Ref a) x of
                                     Inl e \<Rightarrow> VThrows
                                   | Inr (v, s') \<Rightarrow> observe d s' v) (callee ob)))"

definition observe_result :: "nat \<Rightarrow> error + jsval \<times> state \<Rightarrow> view" where
  "observe_result d res = (case res of Inl e \<Rightarrow> VThrows | Inr (v, s') \<Rightarrow> observe d s' v)"

subsection \<open>Navigation from a root object\<close>

text \<open>A caller reaches a marker from the root by reading fields and calling keyed containers.\<close>

datatype step = Field string | Call key

fun navigate :: "state \<Rightarrow> jsval \<Rightarrow> step list \<Rightarrow> error + jsval \<times> state" where
  "navigate s r [] = Inr (r, s)"
| "navigate s r (Field k # rest) =
     (case read_property s r k of Inl e \<Rightarrow> Inl e | Inr (r', s') \<Rightarrow> navigate s' r' rest)"
| "navigate s r (Call x # rest) =
     (case call_function s r x of Inl e \<Rightarrow> Inl e | Inr (r', s') \<Rightarrow> navigate s' r' rest)"

text \<open>\<^verbatim>\<open>S(value)\<close> followed by the steps, from the empty store; the value reached.\<close>

definition run :: "schema \<Rightarrow> string \<Rightarrow> step list \<Rightarrow> error + jsval" where
  "run S value steps =
     (case invoke S value init of
        Inl e \<Rightarrow> Inl e
      | Inr (r, s) \<Rightarrow> (case navigate s r steps of Inl e \<Rightarrow> Inl e | Inr (r', s') \<Rightarrow> Inr r'))"

subsection \<open>Path segments\<close>

text \<open>The segments of a path: the pieces between separators, as \<^verbatim>\<open>p.split("/")\<close> gives them.\<close>

fun segments :: "string \<Rightarrow> string list" where
  "segments [] = [[]]"
| "segments (c # cs) =
     (if c = CHR ''/'' then [] # segments cs
      else (case segments cs of [] \<Rightarrow> [[c]] | x # xs \<Rightarrow> (c # x) # xs))"

definition wf_segment :: "string \<Rightarrow> bool" where
  "wf_segment k = (k \<noteq> [] \<and> CHR ''/'' \<notin> set k)"

definition wf_path :: "string \<Rightarrow> bool" where
  "wf_path p = ([] \<notin> set (segments p))"

subsection \<open>Closed forms of what the combinators build\<close>

definition attr_obj :: "string \<Rightarrow> obj" where
  "attr_obj value = Obj [(DATA_TEST_ATTR, DataProperty (Str value) True True True)] None"

definition marker_props :: "string \<Rightarrow> nat \<Rightarrow> (string \<times> property) list" where
  "marker_props value n =
     [(''value'', DataProperty (Str value) True True True),
      (''selector'', DataProperty (Str (''[data-test='' @ [CHR 0x27] @ value @ [CHR 0x27] @ '']'')) True True True),
      (''nodeProps'', DataProperty (Ref n) True True True)]"

text \<open>The effect of the loop of \<^verbatim>\<open>complex\<close> on the property list of \<^verbatim>\<open>result\<close>.\<close>

fun define_all :: "string \<Rightarrow> (string \<times> schema) list \<Rightarrow> (string \<times> property) list
    \<Rightarrow> error + (string \<times> property) list" where
  "define_all value [] ps = Inr ps"
| "define_all value ((key, child) # rest) ps =
     (case map_of ps key of
        None \<Rightarrow> define_all value rest (ps @ [(key, AccessorProperty (Getter child value key) False False)])
      | Some cur \<Rightarrow>
          if configurable cur
          then define_all value rest
                 (AList.update key (AccessorProperty (Getter child value key) (enumerable cur) True) ps)
          else Inl TypeError)"

text \<open>The address returned and the objects appended to a store of size \<open>n\<close>.\<close>

fun built :: "schema \<Rightarrow> string \<Rightarrow> nat \<Rightarrow> error + nat \<times> obj list" where
  "built Simple value n = Inr (Suc n, [attr_obj value, Obj (marker_props value n) None])"
| "built (Complex nodes) value n =
     (case define_all value nodes (marker_props value n) of
        Inl e \<Rightarrow> Inl e
      | Inr ps \<Rightarrow> Inr (Suc n, [attr_obj value, Obj ps None]))"
| "built (ByKey schema) value n =
     Inr (n, [Obj (marker_props value (Suc n)) (Some (KeyFn schema value)), attr_obj value])"

subsection \<open>Shapes of schemas\<close>

text \<open>A composite schema that declares a child named \<open>k\<close>.\<close>

definition declares :: "schema \<Rightarrow> string \<Rightarrow> bool" where
  "declares S k = (case S of Complex nodes \<Rightarrow> k \<in> fst ` set nodes | Simple \<Rightarrow> False | ByKey schema \<Rightarrow> False)"

text \<open>
  The keys of an object are pairwise different. \<open>Complex nodes\<close> stands for a
  closure over an object only when the keys of \<open>nodes\<close> are.
\<close>

definition well_keyed :: "schema \<Rightarrow> bool" where
  "well_keyed S = (case S of Complex nodes \<Rightarrow> distinct (map fst nodes) | Simple \<Rightarrow> True | ByKey schema \<Rightarrow> True)"

text \<open>The schema reached from a composite by following declared child keys.\<close>

fun descend :: "schema \<Rightarrow> string list \<Rightarrow> schema option" where
  "descend S [] = Some S"
| "descend (Complex nodes) (k # ks) =
     (if distinct (map fst nodes)
      then (case map_of nodes k of None \<Rightarrow> None | Some child \<Rightarrow> descend child ks)
      else None)"
| "descend Simple (k # ks) = None"
| "descend (ByKey schema) (k # ks) = None"

subsection \<open>Well-formed inputs\<close>

text \<open>
  Every key declared anywhere in a schema is a non-empty string without the
  separator; a key passed to a keyed container stringifies to one.
\<close>

fun wf_schema :: "schema \<Rightarrow> bool" where
  "wf_schema Simple = True"
| "wf_schema (Complex nodes) = (\<forall>(k, child) \<in> set nodes. wf_segment k \<and> wf_schema child)"
| "wf_schema (ByKey schema) = wf_schema schema"

fun wf_step :: "step \<Rightarrow> bool" where
  "wf_step (Field k) = True"
| "wf_step (Call x) = wf_segment (to_string x)"

text \<open>
  The invariant of the store under well-formed inputs: a data property named
  \<^verbatim>\<open>value\<close> holds a well-formed path, every closure has captured a well-formed
  schema, a well-formed path and (a getter) a well-formed key, and every logged
  call was made with a well-formed path.
\<close>

definition good_slot :: "string \<Rightarrow> property \<Rightarrow> bool" where
  "good_slot k p =
     (case p of
        DataProperty x w e c \<Rightarrow>
          (k = ''value'' \<longrightarrow> (case x of Str q \<Rightarrow> wf_path q | Undefined \<Rightarrow> False | Ref n \<Rightarrow> False))
      | AccessorProperty g e c \<Rightarrow>
          (case g of Getter child value key \<Rightarrow> wf_schema child \<and> wf_path value \<and> wf_segment key))"

definition good_obj :: "obj \<Rightarrow> bool" where
  "good_obj ob =
     ((\<forall>(k, p) \<in> set (props ob). good_slot k p)
      \<and> (case callee ob of
             None \<Rightarrow> True
           | Some f \<Rightarrow> (case f of KeyFn schema value \<Rightarrow> wf_schema schema \<and> wf_path value)))"

definition good_state :: "state \<Rightarrow> bool" where
  "good_state s =
     ((\<forall>ob \<in> set (heap s). good_obj ob) \<and> (\<forall>(T, q) \<in> set (calls s). wf_path q))"

subsection \<open>Property lists that read alike\<close>

text \<open>
  Two property lists have the same keys in the same order, the same attributes, and
  slots related by \<open>Q\<close>. With \<open>same_view d t1 t2\<close> for \<open>Q\<close>, reading a slot of the
  first list in store \<open>t1\<close> and the slot of the second in store \<open>t2\<close> gives the same
  view at depth \<open>d\<close>.
\<close>

definition same_slots :: "(property \<Rightarrow> property \<Rightarrow> bool)
    \<Rightarrow> (string \<times> property) list \<Rightarrow> (string \<times> property) list \<Rightarrow> bool" where
  "same_slots Q ps1 ps2 =
     list_all2
       (\<lambda>x y. fst x = fst y
          \<and> configurable (snd x) = configurable (snd y)
          \<and> enumerable (snd x) = enumerable (snd y)
          \<and> Q (snd x) (snd y))
       ps1 ps2"

definition same_view :: "nat \<Rightarrow> state \<Rightarrow> state \<Rightarrow> property \<Rightarrow> property \<Rightarrow> bool" where
  "same_view d t1 t2 p1 p2 =
     (observe_result d (read_slot t1 p1) = observe_result d (read_slot t2 p2))"

section \<open>Closed forms\<close>

lemma simple_built:
  "simple v s =
     (Ref (Suc (length (heap s))),
      s\<lparr>heap := heap s @ [attr_obj v, Obj (marker_props v (length (heap s))) None]\<rparr>)"
  by (simp add: simple_def object_literal_def attr_obj_def marker_props_def DATA_TEST_ATTR_def)

lemma lookup_append:
  "heap t = h @ objs \<Longrightarrow>
   lookup t a =
     (if a < length h then Some (h ! a)
      else if a < length h + length objs then Some (objs ! (a - length h)) else None)"
  by (auto simp: lookup_def nth_append)

lemma forEach_define_all:
  "lookup s a = Some (Obj ps c) \<Longrightarrow>
   forEach (\<lambda>(key, child). define_property (Ref a) key (Getter child v key)) nodes s =
     map_sum id (\<lambda>ps'. store a (Obj ps' c) s) (define_all v nodes ps)"
proof (induction nodes arbitrary: ps s)
  case Nil
  then have "(heap s)[a := Obj ps c] = heap s"
    by (auto simp: lookup_def list_update_same_conv split: if_splits)
  then show ?case
    by (simp add: store_def)
next
  case (Cons kc nodes)
  obtain key child where kc: "kc = (key, child)" by (cases kc)
  have a: "a < length (heap s)" "heap s ! a = Obj ps c"
    using Cons.prems by (auto simp: lookup_def split: if_splits)
  have st: "\<And>ps'. lookup (store a (Obj ps' c) s) a = Some (Obj ps' c)"
    using a by (simp add: lookup_def store_def)
  have st2: "\<And>ps' ps''. store a (Obj ps'' c) (store a (Obj ps' c) s) = store a (Obj ps'' c) s"
    by (simp add: store_def)
  show ?case
    using Cons.prems Cons.IH [OF st]
    by (auto simp: kc st2 split: option.splits)
qed

text \<open>Every schema call appends its objects to the store and its own entry to the log.\<close>

lemma invoke_built:
  "invoke S v s =
     map_sum id (\<lambda>(a, objs). (Ref a, s\<lparr>heap := heap s @ objs, calls := calls s @ [(S, v)]\<rparr>))
       (built S v (length (heap s)))"
proof (cases S)
  case Simple
  then show ?thesis by (simp add: invoke_def simple_built)
next
  case (Complex nodes)
  let ?s0 = "s\<lparr>calls := calls s @ [(S, v)]\<rparr>"
  let ?n = "length (heap s)"
  let ?s1 = "?s0\<lparr>heap := heap ?s0 @ [attr_obj v, Obj (marker_props v ?n) None]\<rparr>"
  have lk: "lookup ?s1 (Suc ?n) = Some (Obj (marker_props v ?n) None)"
    by (simp add: lookup_def nth_append)
  show ?thesis
    unfolding Complex invoke_def complex_def
    using forEach_define_all [OF lk, of v nodes]
    by (auto simp: simple_built Let_def store_def Complex list_update_append split: sum.splits)
next
  case (ByKey schema)
  then show ?thesis
    by (simp add: invoke_def byKey_def function_literal_def object_literal_def lookup_def
        store_def marker_props_def attr_obj_def DATA_TEST_ATTR_def)
qed

lemma define_all_distinct:
  assumes "distinct (map fst nodes)"
    and "\<forall>k\<in>fst ` set nodes. \<forall>cur. map_of ps k = Some cur \<longrightarrow> configurable cur"
  shows "\<exists>ps'. define_all v nodes ps = Inr ps' \<and>
           (\<forall>k. map_of ps' k =
              (case map_of nodes k of
                 None \<Rightarrow> map_of ps k
               | Some child \<Rightarrow>
                   Some (AccessorProperty (Getter child v k)
                          (case map_of ps k of None \<Rightarrow> False | Some cur \<Rightarrow> enumerable cur)
                          (map_of ps k \<noteq> None))))"
  using assms
proof (induction nodes arbitrary: ps)
  case Nil
  then show ?case by simp
next
  case (Cons kc nodes)
  obtain key child where kc: "kc = (key, child)" by (cases kc)
  have dist: "distinct (map fst nodes)" and notin: "key \<notin> fst ` set nodes"
    using Cons.prems(1) by (auto simp: kc)
  have none: "map_of nodes key = None"
    using notin by (simp add: map_of_eq_None_iff)
  show ?case
  proof (cases "map_of ps key")
    case None
    let ?ps2 = "ps @ [(key, AccessorProperty (Getter child v key) False False)]"
    have m2: "\<And>k. map_of ?ps2 k = (if k = key then Some (AccessorProperty (Getter child v key) False False) else map_of ps k)"
      using None by (auto simp: map_add_def split: option.splits)
    have inv: "\<forall>k\<in>fst ` set nodes. \<forall>cur. map_of ?ps2 k = Some cur \<longrightarrow> configurable cur"
      using Cons.prems(2) notin unfolding m2 by (auto simp: kc)
    from Cons.IH [OF dist inv] obtain ps' where
      ps': "define_all v nodes ?ps2 = Inr ps'"
      "\<And>k. map_of ps' k =
              (case map_of nodes k of
                 None \<Rightarrow> map_of ?ps2 k
               | Some child \<Rightarrow>
                   Some (AccessorProperty (Getter child v k)
                          (case map_of ?ps2 k of None \<Rightarrow> False | Some cur \<Rightarrow> enumerable cur)
                          (map_of ?ps2 k \<noteq> None)))"
      by blast
    have "define_all v (kc # nodes) ps = Inr ps'"
      using None ps'(1) by (simp add: kc)
    moreover have "map_of ps' k =
              (case map_of (kc # nodes) k of
                 None \<Rightarrow> map_of ps k
               | Some child \<Rightarrow>
                   Some (AccessorProperty (Getter child v k)
                          (case map_of ps k of None \<Rightarrow> False | Some cur \<Rightarrow> enumerable cur)
                          (map_of ps k \<noteq> None)))" for k
      unfolding ps'(2) m2 using None none by (auto simp: kc split: option.splits)
    ultimately show ?thesis by blast
  next
    case (Some cur)
    have conf: "configurable cur"
      using Cons.prems(2) Some by (auto simp: kc)
    let ?ps2 = "AList.update key (AccessorProperty (Getter child v key) (enumerable cur) True) ps"
    have m2: "\<And>k. map_of ?ps2 k = (if k = key then Some (AccessorProperty (Getter child v key) (enumerable cur) True) else map_of ps k)"
      by (simp add: update_conv')
    have inv: "\<forall>k\<in>fst ` set nodes. \<forall>cur. map_of ?ps2 k = Some cur \<longrightarrow> configurable cur"
      using Cons.prems(2) notin unfolding m2 by (auto simp: kc)
    from Cons.IH [OF dist inv] obtain ps' where
      ps': "define_all v nodes ?ps2 = Inr ps'"
      "\<And>k. map_of ps' k =
              (case map_of nodes k of
                 None \<Rightarrow> map_of ?ps2 k
               | Some child \<Rightarrow>
                   Some (AccessorProperty (Getter child v k)
                          (case map_of ?ps2 k of None \<Rightarrow> False | Some cur \<Rightarrow> enumerable cur)
                          (map_of ?ps2 k \<noteq> None)))"
      by blast
    have "define_all v (kc # nodes) ps = Inr ps'"
      using Some conf ps'(1) by (simp add: kc)
    moreover have "map_of ps' k =
              (case map_of (kc # nodes) k of
                 None \<Rightarrow> map_of ps k
               | Some child \<Rightarrow>
                   Some (AccessorProperty (Getter child v k)
                          (case map_of ps k of None \<Rightarrow> False | Some cur \<Rightarrow> enumerable cur)
                          (map_of ps k \<noteq> None)))" for k
      unfolding ps'(2) m2 using Some none by (auto simp: kc split: option.splits)
    ultimately show ?thesis by blast
  qed
qed

lemma map_of_marker_props:
  "map_of (marker_props v n) k =
     (if k = ''value'' then Some (DataProperty (Str v) True True True)
      else if k = ''selector'' then
        Some (DataProperty (Str (''[data-test='' @ [CHR 0x27] @ v @ [CHR 0x27] @ '']'')) True True True)
      else if k = ''nodeProps'' then Some (DataProperty (Ref n) True True True)
      else None)"
  by (simp add: marker_props_def)

lemma invoke_Simple:
  "invoke Simple v s =
     Inr (Ref (Suc (length (heap s))),
          s\<lparr>heap := heap s @ [attr_obj v, Obj (marker_props v (length (heap s))) None],
            calls := calls s @ [(Simple, v)]\<rparr>)"
  by (simp add: invoke_built)

lemma invoke_ByKey:
  "invoke (ByKey S) v s =
     Inr (Ref (length (heap s)),
          s\<lparr>heap := heap s @ [Obj (marker_props v (Suc (length (heap s)))) (Some (KeyFn S v)), attr_obj v],
            calls := calls s @ [(ByKey S, v)]\<rparr>)"
  by (simp add: invoke_built)

lemma invoke_Complex:
  assumes "distinct (map fst nodes)"
  shows "\<exists>ps. invoke (Complex nodes) v s =
            Inr (Ref (Suc (length (heap s))),
                 s\<lparr>heap := heap s @ [attr_obj v, Obj ps None],
                   calls := calls s @ [(Complex nodes, v)]\<rparr>)
          \<and> (\<forall>k. map_of ps k =
                (case map_of nodes k of
                   None \<Rightarrow> map_of (marker_props v (length (heap s))) k
                 | Some child \<Rightarrow>
                     Some (AccessorProperty (Getter child v k)
                            (k \<in> {''value'', ''selector'', ''nodeProps''})
                            (k \<in> {''value'', ''selector'', ''nodeProps''}))))"
proof -
  have conf: "\<forall>k\<in>fst ` set nodes. \<forall>cur. map_of (marker_props v (length (heap s))) k = Some cur \<longrightarrow> configurable cur"
    by (auto simp: map_of_marker_props split: if_splits)
  from define_all_distinct [OF assms conf, of v] obtain ps where
    ps: "define_all v nodes (marker_props v (length (heap s))) = Inr ps"
    "\<And>k. map_of ps k =
        (case map_of nodes k of
           None \<Rightarrow> map_of (marker_props v (length (heap s))) k
         | Some child \<Rightarrow>
             Some (AccessorProperty (Getter child v k)
                    (case map_of (marker_props v (length (heap s))) k of None \<Rightarrow> False | Some cur \<Rightarrow> enumerable cur)
                    (map_of (marker_props v (length (heap s))) k \<noteq> None)))"
    by blast
  have "invoke (Complex nodes) v s =
            Inr (Ref (Suc (length (heap s))),
                 s\<lparr>heap := heap s @ [attr_obj v, Obj ps None],
                   calls := calls s @ [(Complex nodes, v)]\<rparr>)"
    by (simp add: invoke_built ps(1))
  moreover have "map_of ps k =
                (case map_of nodes k of
                   None \<Rightarrow> map_of (marker_props v (length (heap s))) k
                 | Some child \<Rightarrow>
                     Some (AccessorProperty (Getter child v k)
                            (k \<in> {''value'', ''selector'', ''nodeProps''})
                            (k \<in> {''value'', ''selector'', ''nodeProps''})))" for k
    unfolding ps(2) by (simp add: map_of_marker_props split: option.splits)
  ultimately show ?thesis by blast
qed

text \<open>Reading a property of the object at the end of the store.\<close>

lemma read_property_at:
  "lookup s a = Some ob \<Longrightarrow>
   read_property s (Ref a) k =
     (case map_of (props ob) k of None \<Rightarrow> Inr (Undefined, s) | Some p \<Rightarrow> read_slot s p)"
  by (simp add: read_property_def)

lemma read_declared_child:
  assumes "distinct (map fst nodes)" and "map_of nodes k = Some child"
  shows "\<exists>a s1. invoke (Complex nodes) v s = Inr (Ref a, s1)
           \<and> lookup s1 a \<noteq> None
           \<and> map_of (props (heap s1 ! a)) k =
               Some (AccessorProperty (Getter child v k)
                      (k \<in> {''value'', ''selector'', ''nodeProps''})
                      (k \<in> {''value'', ''selector'', ''nodeProps''}))
           \<and> read_property s1 (Ref a) k = invoke child (v @ ''/'' @ k) s1
           \<and> calls s1 = calls s @ [(Complex nodes, v)]
           \<and> length (heap s1) = length (heap s) + 2"
proof -
  from invoke_Complex [OF assms(1), of v s] obtain ps where
    inv: "invoke (Complex nodes) v s =
            Inr (Ref (Suc (length (heap s))),
                 s\<lparr>heap := heap s @ [attr_obj v, Obj ps None],
                   calls := calls s @ [(Complex nodes, v)]\<rparr>)"
    and ps: "\<And>k. map_of ps k =
                (case map_of nodes k of
                   None \<Rightarrow> map_of (marker_props v (length (heap s))) k
                 | Some child \<Rightarrow>
                     Some (AccessorProperty (Getter child v k)
                            (k \<in> {''value'', ''selector'', ''nodeProps''})
                            (k \<in> {''value'', ''selector'', ''nodeProps''})))"
    by blast
  let ?s1 = "s\<lparr>heap := heap s @ [attr_obj v, Obj ps None], calls := calls s @ [(Complex nodes, v)]\<rparr>"
  have lk: "lookup ?s1 (Suc (length (heap s))) = Some (Obj ps None)"
    by (simp add: lookup_def nth_append)
  have "read_property ?s1 (Ref (Suc (length (heap s)))) k = invoke child (v @ ''/'' @ k) ?s1"
    by (simp add: read_property_at [OF lk] ps assms(2) template_path_def)
  moreover have "map_of (props (heap ?s1 ! Suc (length (heap s)))) k =
               Some (AccessorProperty (Getter child v k)
                      (k \<in> {''value'', ''selector'', ''nodeProps''})
                      (k \<in> {''value'', ''selector'', ''nodeProps''}))"
    by (simp add: nth_append ps assms(2))
  ultimately show ?thesis
    using inv lk by (intro exI [of _ "Suc (length (heap s))"] exI [of _ ?s1]) simp
qed

lemma read_own_field:
  assumes "well_keyed S" and "\<not> declares S k"
  shows "\<exists>a n s1. invoke S v s = Inr (Ref a, s1)
           \<and> lookup s1 n = Some (attr_obj v)
           \<and> read_property s1 (Ref a) k =
               (case map_of (marker_props v n) k of
                  None \<Rightarrow> Inr (Undefined, s1)
                | Some p \<Rightarrow> read_slot s1 p)"
proof (cases S)
  case Simple
  show ?thesis
    unfolding Simple invoke_Simple
    by (rule exI [of _ "Suc (length (heap s))"], rule exI [of _ "length (heap s)"],
        rule exI [of _ "s\<lparr>heap := heap s @ [attr_obj v, Obj (marker_props v (length (heap s))) None],
            calls := calls s @ [(Simple, v)]\<rparr>"])
       (simp add: read_property_def lookup_def nth_append)
next
  case (ByKey schema)
  show ?thesis
    unfolding ByKey invoke_ByKey
    by (rule exI [of _ "length (heap s)"], rule exI [of _ "Suc (length (heap s))"],
        rule exI [of _ "s\<lparr>heap := heap s @ [Obj (marker_props v (Suc (length (heap s)))) (Some (KeyFn schema v)), attr_obj v],
            calls := calls s @ [(ByKey schema, v)]\<rparr>"])
       (simp add: read_property_def lookup_def nth_append)
next
  case (Complex nodes)
  have d: "distinct (map fst nodes)" and nk: "map_of nodes k = None"
    using assms by (auto simp: Complex well_keyed_def declares_def map_of_eq_None_iff)
  from invoke_Complex [OF d, of v s] obtain ps where
    inv: "invoke (Complex nodes) v s =
            Inr (Ref (Suc (length (heap s))),
                 s\<lparr>heap := heap s @ [attr_obj v, Obj ps None],
                   calls := calls s @ [(Complex nodes, v)]\<rparr>)"
    and ps: "\<And>k. map_of ps k =
                (case map_of nodes k of
                   None \<Rightarrow> map_of (marker_props v (length (heap s))) k
                 | Some child \<Rightarrow>
                     Some (AccessorProperty (Getter child v k)
                            (k \<in> {''value'', ''selector'', ''nodeProps''})
                            (k \<in> {''value'', ''selector'', ''nodeProps''})))"
    by blast
  show ?thesis
    unfolding Complex inv
    by (rule exI [of _ "Suc (length (heap s))"], rule exI [of _ "length (heap s)"],
        rule exI [of _ "s\<lparr>heap := heap s @ [attr_obj v, Obj ps None],
                   calls := calls s @ [(Complex nodes, v)]\<rparr>"])
       (simp add: read_property_def lookup_def nth_append ps nk)
qed

section \<open>Schema calls do not depend on the store\<close>

lemma same_slots_map_of:
  assumes "same_slots Q ps1 ps2"
  shows "rel_option (\<lambda>p1 p2. configurable p1 = configurable p2 \<and> enumerable p1 = enumerable p2)
           (map_of ps1 k) (map_of ps2 k)"
  using assms unfolding same_slots_def
  by (induction ps1 ps2 rule: list_all2_induct) (auto split: prod.splits)

lemma same_slots_update:
  assumes "same_slots Q ps1 ps2"
    and "configurable p1 = configurable p2" and "enumerable p1 = enumerable p2"
    and "Q p1 p2"
  shows "same_slots Q (AList.update k p1 ps1) (AList.update k p2 ps2)"
  using assms unfolding same_slots_def
  by (induction ps1 ps2 rule: list_all2_induct) (auto split: prod.splits)

lemma same_slots_snoc:
  assumes "same_slots Q ps1 ps2"
    and "configurable p1 = configurable p2" and "enumerable p1 = enumerable p2"
    and "Q p1 p2"
  shows "same_slots Q (ps1 @ [(k, p1)]) (ps2 @ [(k, p2)])"
  using assms unfolding same_slots_def
  by (auto intro!: list_all2_appendI)

lemma define_all_same_slots:
  assumes getters: "\<And>g e c. Q (AccessorProperty g e c) (AccessorProperty g e c)"
    and "same_slots Q ps1 ps2"
  shows "rel_sum (=) (same_slots Q) (define_all v nodes ps1) (define_all v nodes ps2)"
  using assms(2)
proof (induction nodes arbitrary: ps1 ps2)
  case Nil
  then show ?case by simp
next
  case (Cons kc nodes)
  obtain key child where kc: "kc = (key, child)" by (cases kc)
  let ?new = "\<lambda>e c. AccessorProperty (Getter child v key) e c"
  from same_slots_map_of [OF Cons.prems, of key]
  consider "map_of ps1 key = None" "map_of ps2 key = None"
    | c1 c2 where "map_of ps1 key = Some c1" "map_of ps2 key = Some c2"
        "configurable c1 = configurable c2" "enumerable c1 = enumerable c2"
    by (auto elim: option.rel_cases)
  then show ?case
  proof cases
    case 1
    have "same_slots Q (ps1 @ [(key, ?new False False)]) (ps2 @ [(key, ?new False False)])"
      by (rule same_slots_snoc [OF Cons.prems]) (simp, simp, rule getters)
    from Cons.IH [OF this] show ?thesis
      using 1 by (simp add: kc)
  next
    case 2
    have "same_slots Q (AList.update key (?new (enumerable c1) True) ps1)
            (AList.update key (?new (enumerable c2) True) ps2)"
      unfolding 2(4) by (rule same_slots_update [OF Cons.prems]) (simp, simp, rule getters)
    from Cons.IH [OF this] show ?thesis
      using 2 by (simp add: kc)
  qed
qed

lemma observe_attr_obj:
  "lookup t n = Some (attr_obj v) \<Longrightarrow>
   observe d t (Ref n) = (case d of 0 \<Rightarrow> VCut | Suc d' \<Rightarrow> VObj [(''data-test'', VStr v)] None)"
  by (cases d) (simp_all add: attr_obj_def DATA_TEST_ATTR_def)

lemma same_slots_marker_props:
  assumes "lookup t1 n1 = Some (attr_obj v)" and "lookup t2 n2 = Some (attr_obj v)"
  shows "same_slots (same_view d t1 t2) (marker_props v n1) (marker_props v n2)"
  using assms
  by (simp add: same_slots_def same_view_def marker_props_def observe_result_def observe_attr_obj)

lemma observe_obj:
  "lookup t a = Some (Obj ps c) \<Longrightarrow>
   observe (Suc d) t (Ref a) =
     VObj (map (\<lambda>(k, p). (k, observe_result d (read_slot t p))) ps)
          (map_option (\<lambda>f x. observe_result d (call_function t (Ref a) x)) c)"
  by (simp add: observe_result_def)

lemma observe_result_Inr:
  "observe_result d (Inr (r, s)) = observe d s r"
  by (simp add: observe_result_def)

lemma observe_result_Inl:
  "observe_result d (Inl e) = VThrows"
  by (simp add: observe_result_def)

lemma same_slots_views:
  "same_slots (same_view d t1 t2) ps1 ps2 \<Longrightarrow>
   map (\<lambda>(k, p). (k, observe_result d (read_slot t1 p))) ps1 =
   map (\<lambda>(k, p). (k, observe_result d (read_slot t2 p))) ps2"
  unfolding same_slots_def same_view_def
  by (induction ps1 ps2 rule: list_all2_induct) (auto split: prod.splits)

lemma define_all_isl:
  "isl (define_all v nodes (marker_props v n1)) = isl (define_all v nodes (marker_props v n2))"
proof -
  have "same_slots (\<lambda>p1 p2. True) (marker_props v n1) (marker_props v n2)"
    by (simp add: same_slots_def marker_props_def)
  from define_all_same_slots [of "\<lambda>p1 p2. True", OF _ this, of v nodes]
  show ?thesis by (auto elim: rel_sum.cases)
qed

text \<open>
  The same schema called with the same path in any two stores either throws in both
  or returns values with the same view, at every depth.
\<close>

lemma invoke_pure:
  "observe_result d (invoke S v s1) = observe_result d (invoke S v s2)"
proof (induction d arbitrary: S v s1 s2)
  case 0
  show ?case
  proof (cases S)
    case (Complex nodes)
    show ?thesis
      using define_all_isl [of v nodes "length (heap s1)" "length (heap s2)"]
      by (cases "define_all v nodes (marker_props v (length (heap s1)))";
          cases "define_all v nodes (marker_props v (length (heap s2)))")
         (simp_all add: Complex invoke_built observe_result_def)
  qed (simp_all add: invoke_built observe_result_def)
next
  case (Suc d)
  have getters: "same_view d t1 t2 (AccessorProperty g e c) (AccessorProperty g e c)" for t1 t2 g e c
    by (cases g) (simp add: same_view_def Suc.IH)
  show ?case
  proof (cases S)
    case Simple
    let ?t = "\<lambda>s. s\<lparr>heap := heap s @ [attr_obj v, Obj (marker_props v (length (heap s))) None],
            calls := calls s @ [(Simple, v)]\<rparr>"
    have lk: "lookup (?t s) (Suc (length (heap s))) = Some (Obj (marker_props v (length (heap s))) None)"
      "lookup (?t s) (length (heap s)) = Some (attr_obj v)" for s
      by (simp_all add: lookup_def nth_append)
    have "same_slots (same_view d (?t s1) (?t s2)) (marker_props v (length (heap s1))) (marker_props v (length (heap s2)))"
      by (rule same_slots_marker_props) (rule lk)+
    from same_slots_views [OF this] show ?thesis
      unfolding Simple invoke_Simple
      by (simp add: observe_result_Inr observe_obj [OF lk(1)] del: observe.simps)
  next
    case (ByKey schema)
    let ?t = "\<lambda>s. s\<lparr>heap := heap s @ [Obj (marker_props v (Suc (length (heap s)))) (Some (KeyFn schema v)), attr_obj v],
            calls := calls s @ [(ByKey schema, v)]\<rparr>"
    have lk: "lookup (?t s) (length (heap s)) = Some (Obj (marker_props v (Suc (length (heap s)))) (Some (KeyFn schema v)))"
      "lookup (?t s) (Suc (length (heap s))) = Some (attr_obj v)" for s
      by (simp_all add: lookup_def nth_append)
    have "same_slots (same_view d (?t s1) (?t s2)) (marker_props v (Suc (length (heap s1)))) (marker_props v (Suc (length (heap s2))))"
      by (rule same_slots_marker_props) (rule lk)+
    moreover have "call_function (?t s) (Ref (length (heap s))) x
        = invoke schema (template_path v (to_string x)) (?t s)" for s x
      by (simp add: call_function_def lk)
    moreover have "(\<lambda>x. observe_result d (invoke schema (template_path v (to_string x)) (?t s1)))
        = (\<lambda>x. observe_result d (invoke schema (template_path v (to_string x)) (?t s2)))"
      by (rule ext) (rule Suc.IH)
    ultimately show ?thesis
      unfolding ByKey invoke_ByKey
      by (simp add: observe_result_Inr observe_obj [OF lk(1)] same_slots_views del: observe.simps)
  next
    case (Complex nodes)
    let ?n1 = "length (heap s1)" and ?n2 = "length (heap s2)"
    show ?thesis
    proof (cases "define_all v nodes (marker_props v ?n1)")
      case (Inl e)
      with define_all_isl [of v nodes ?n1 ?n2] obtain e' where
        "define_all v nodes (marker_props v ?n2) = Inl e'"
        by (cases "define_all v nodes (marker_props v ?n2)") auto
      with Inl show ?thesis
        by (simp add: Complex invoke_built observe_result_def)
    next
      case (Inr ps1)
      with define_all_isl [of v nodes ?n1 ?n2] obtain ps2 where
        ps2: "define_all v nodes (marker_props v ?n2) = Inr ps2"
        by (cases "define_all v nodes (marker_props v ?n2)") auto
      let ?t1 = "s1\<lparr>heap := heap s1 @ [attr_obj v, Obj ps1 None], calls := calls s1 @ [(Complex nodes, v)]\<rparr>"
      let ?t2 = "s2\<lparr>heap := heap s2 @ [attr_obj v, Obj ps2 None], calls := calls s2 @ [(Complex nodes, v)]\<rparr>"
      have lk: "lookup ?t1 (Suc ?n1) = Some (Obj ps1 None)" "lookup ?t1 ?n1 = Some (attr_obj v)"
        "lookup ?t2 (Suc ?n2) = Some (Obj ps2 None)" "lookup ?t2 ?n2 = Some (attr_obj v)"
        by (simp_all add: lookup_def nth_append)
      have "same_slots (same_view d ?t1 ?t2) (marker_props v ?n1) (marker_props v ?n2)"
        by (rule same_slots_marker_props) (rule lk)+
      from define_all_same_slots [of "same_view d ?t1 ?t2", OF getters this, of v nodes]
      have "same_slots (same_view d ?t1 ?t2) ps1 ps2"
        by (simp add: Inr ps2)
      from same_slots_views [OF this] show ?thesis
        by (simp add: Complex invoke_built Inr ps2 observe_result_Inr
            observe_obj [OF lk(1)] observe_obj [OF lk(3)] del: observe.simps)
    qed
  qed
qed

section \<open>The empty composite\<close>

text \<open>
  Claim C6. \<^verbatim>\<open>complex({})\<close> applied to any root value \<open>v\<close> does exactly what
  \<^verbatim>\<open>simple(v)\<close> does: the same object, with the three Marker fields and no other,
  and the same store. Invoked with \<^verbatim>\<open>"root"\<close> from the empty store it yields
  \<^verbatim>\<open>{ value: "root", selector: "[data-test='root']", nodeProps: { "data-test": "root" } }\<close>.
\<close>

theorem complex_empty_is_simple:
  "complex [] v s = Inr (simple v s)
   \<and> invoke (Complex []) ''root'' init =
       Inr (Ref 1,
            \<lparr>heap =
               [Obj [(''data-test'', DataProperty (Str ''root'') True True True)] None,
                Obj [(''value'', DataProperty (Str ''root'') True True True),
                     (''selector'', DataProperty (Str ''[data-test='root']'') True True True),
                     (''nodeProps'', DataProperty (Ref 0) True True True)] None],
             calls = [(Complex [], ''root'')]\<rparr>)
   \<and> observe_result 2 (invoke (Complex []) ''root'' init) =
       VObj [(''value'', VStr ''root''),
             (''selector'', VStr ''[data-test='root']''),
             (''nodeProps'', VObj [(''data-test'', VStr ''root'')] None)] None"
proof -
  have 1: "complex [] v s = Inr (simple v s)"
    by (simp add: complex_def split: prod.splits)
  have 2: "invoke (Complex []) ''root'' init =
       Inr (Ref 1,
            \<lparr>heap =
               [Obj [(''data-test'', DataProperty (Str ''root'') True True True)] None,
                Obj [(''value'', DataProperty (Str ''root'') True True True),
                     (''selector'', DataProperty (Str ''[data-test='root']'') True True True),
                     (''nodeProps'', DataProperty (Ref 0) True True True)] None],
             calls = [(Complex [], ''root'')]\<rparr>)"
    by (simp add: invoke_built init_def marker_props_def attr_obj_def DATA_TEST_ATTR_def)
  have 3: "observe_result 2 (invoke (Complex []) ''root'' init) =
       VObj [(''value'', VStr ''root''),
             (''selector'', VStr ''[data-test='root']''),
             (''nodeProps'', VObj [(''data-test'', VStr ''root'')] None)] None"
    unfolding 2 by (simp add: observe_result_def numeral_2_eq_2 lookup_def)
  from 1 2 3 show ?thesis by simp
qed

section \<open>Path composition\<close>

lemma kept_value:
  assumes "well_keyed T" and "\<not> declares T ''value''"
  shows "\<exists>a s1. invoke T v s = Inr (Ref a, s1) \<and> read_property s1 (Ref a) ''value'' = Inr (Str v, s1)"
  using read_own_field [OF assms, of v s] by (auto simp: map_of_marker_props)

lemma navigate_chain:
  assumes "descend S ks = Some T" and "well_keyed T" and "\<not> declares T ''value''"
  shows "\<exists>r s1 m s2. invoke S v s = Inr (r, s1)
           \<and> navigate s1 r (map Field ks) = Inr (m, s2)
           \<and> read_property s2 m ''value'' = Inr (Str (foldl template_path v ks), s2)"
  using assms(1)
proof (induction ks arbitrary: S v s)
  case Nil
  then have "S = T" by simp
  with kept_value [OF assms(2,3), of v s] show ?case by auto
next
  case (Cons k ks)
  from Cons.prems obtain nodes child where
    S: "S = Complex nodes" and d: "distinct (map fst nodes)"
    and c: "map_of nodes k = Some child" and dc: "descend child ks = Some T"
    by (cases S) (auto split: if_splits option.splits)
  from read_declared_child [OF d c, of v s] obtain a s1 where
    inv: "invoke (Complex nodes) v s = Inr (Ref a, s1)"
    and rd: "read_property s1 (Ref a) k = invoke child (v @ ''/'' @ k) s1"
    by blast
  from Cons.IH [OF dc, of "v @ ''/'' @ k" s1] obtain r' s1' m s2 where
    "invoke child (v @ ''/'' @ k) s1 = Inr (r', s1')"
    "navigate s1' r' (map Field ks) = Inr (m, s2)"
    "read_property s2 m ''value'' = Inr (Str (foldl template_path (v @ ''/'' @ k) ks), s2)"
    by blast
  moreover have "template_path v k = v @ ''/'' @ k"
    by (simp add: template_path_def)
  ultimately show ?case
    using inv rd by (simp add: S)
qed

text \<open>
  Claim C1, as the code has it. For a composite schema \<^verbatim>\<open>complex(nodes)\<close>, a declared
  child key \<open>k\<close> with schema \<open>child\<close> and a root value \<open>v\<close>, reading field \<open>k\<close> of
  the object produced for \<open>v\<close> is exactly the call \<^verbatim>\<open>child(v + "/" + k)\<close>. The Marker
  it returns has the value \<^verbatim>\<open>v + "/" + k\<close> whenever \<open>child\<close> is \<^verbatim>\<open>simple\<close>, a
  \<^verbatim>\<open>byKey\<close> schema, or a composite that declares no child named \<^verbatim>\<open>value\<close>. Along a
  chain of declared keys \<open>ks\<close> that ends in such a schema, the deepest Marker's
  value is the root value followed by \<^verbatim>\<open>"/" + k\<close> for each key of the chain.
\<close>

theorem child_path_composition:
  "(distinct (map fst nodes) \<and> map_of nodes k = Some child \<longrightarrow>
      (\<exists>a s1. invoke (Complex nodes) v s = Inr (Ref a, s1)
         \<and> read_property s1 (Ref a) k = invoke child (v @ ''/'' @ k) s1
         \<and> (well_keyed child \<and> \<not> declares child ''value'' \<longrightarrow>
              (\<exists>m s2. read_property s1 (Ref a) k = Inr (m, s2)
                 \<and> read_property s2 m ''value'' = Inr (Str (v @ ''/'' @ k), s2)))))
   \<and> (descend S ks = Some T \<and> well_keyed T \<and> \<not> declares T ''value'' \<longrightarrow>
        (\<exists>r s1 m s2. invoke S v s = Inr (r, s1)
           \<and> navigate s1 r (map Field ks) = Inr (m, s2)
           \<and> read_property s2 m ''value'' = Inr (Str (foldl template_path v ks), s2)))"
proof (intro conjI impI)
  assume h: "distinct (map fst nodes) \<and> map_of nodes k = Some child"
  from read_declared_child [of nodes k child v s] h obtain a s1 where
    inv: "invoke (Complex nodes) v s = Inr (Ref a, s1)"
    and rd: "read_property s1 (Ref a) k = invoke child (v @ ''/'' @ k) s1"
    by blast
  have "\<exists>m s2. read_property s1 (Ref a) k = Inr (m, s2)
          \<and> read_property s2 m ''value'' = Inr (Str (v @ ''/'' @ k), s2)"
    if "well_keyed child \<and> \<not> declares child ''value''"
    using kept_value [of child "v @ ''/'' @ k" s1] that rd by auto
  with inv rd show "\<exists>a s1. invoke (Complex nodes) v s = Inr (Ref a, s1)
         \<and> read_property s1 (Ref a) k = invoke child (v @ ''/'' @ k) s1
         \<and> (well_keyed child \<and> \<not> declares child ''value'' \<longrightarrow>
              (\<exists>m s2. read_property s1 (Ref a) k = Inr (m, s2)
                 \<and> read_property s2 m ''value'' = Inr (Str (v @ ''/'' @ k), s2)))"
    by blast
next
  assume "descend S ks = Some T \<and> well_keyed T \<and> \<not> declares T ''value''"
  then show "\<exists>r s1 m s2. invoke S v s = Inr (r, s1)
           \<and> navigate s1 r (map Field ks) = Inr (m, s2)
           \<and> read_property s2 m ''value'' = Inr (Str (foldl template_path v ks), s2)"
    using navigate_chain [of S ks T v s] by blast
qed

text \<open>The chain \<^verbatim>\<open>a -> b -> c\<close>: the deepest value is \<^verbatim>\<open>"a/b/c"\<close>.\<close>

theorem child_path_composition_witness:
  "distinct (map fst [(''b'', Complex [(''c'', Simple)])])
   \<and> map_of [(''b'', Complex [(''c'', Simple)])] ''b'' = Some (Complex [(''c'', Simple)])
   \<and> well_keyed (Complex [(''c'', Simple)])
   \<and> \<not> declares (Complex [(''c'', Simple)]) ''value''
   \<and> descend (Complex [(''b'', Complex [(''c'', Simple)])]) [''b'', ''c''] = Some Simple
   \<and> well_keyed Simple \<and> \<not> declares Simple ''value''
   \<and> (\<exists>a s1. invoke (Complex [(''b'', Complex [(''c'', Simple)])]) ''a'' init = Inr (Ref a, s1)
         \<and> (\<exists>m s2. read_property s1 (Ref a) ''b'' = Inr (m, s2)
                \<and> read_property s2 m ''value'' = Inr (Str ''a/b'', s2)))
   \<and> (\<exists>r s1 m s2. invoke (Complex [(''b'', Complex [(''c'', Simple)])]) ''a'' init = Inr (r, s1)
         \<and> navigate s1 r [Field ''b'', Field ''c''] = Inr (m, s2)
         \<and> read_property s2 m ''value'' = Inr (Str ''a/b/c'', s2))"
  using child_path_composition
    [of "[(''b'', Complex [(''c'', Simple)])]" "''b''" "Complex [(''c'', Simple)]" "''a''" init
        "Complex [(''b'', Complex [(''c'', Simple)])]" "[''b'', ''c'']" Simple]
  by (simp add: well_keyed_def declares_def template_path_def) blast

text \<open>
  Claim C1 as stated fails when the child declares a key named \<^verbatim>\<open>value\<close>: for
  \<^verbatim>\<open>complex({ a: complex({ value: simple }) })("root")\<close>, the \<^verbatim>\<open>value\<close> of the
  Marker read from field \<^verbatim>\<open>a\<close> is an object (the grandchild Marker), not the
  string \<^verbatim>\<open>"root/a"\<close>.
\<close>

theorem child_path_composition_counterexample:
  "run (Complex [(''a'', Complex [(''value'', Simple)])]) ''root'' [Field ''a'', Field ''value''] = Inr (Ref 5)
   \<and> run (Complex [(''a'', Complex [(''value'', Simple)])]) ''root'' [Field ''a'', Field ''value'']
       \<noteq> Inr (Str ''root/a'')"
  by (simp add: run_def invoke_built init_def marker_props_def attr_obj_def read_property_def
      lookup_def template_path_def)

section \<open>Reserved field names\<close>

text \<open>
  Claim C8. When a composite declares a child key named \<^verbatim>\<open>value\<close>, \<^verbatim>\<open>selector\<close> or
  \<^verbatim>\<open>nodeProps\<close>, invoking the schema raises no error: the base attribute is a
  configurable data property, so \<^verbatim>\<open>Object.defineProperty\<close> turns it into an accessor
  in place (it stays enumerable and configurable), and reading the field is the call
  \<^verbatim>\<open>child(v + "/" + key)\<close> instead of the base attribute.
\<close>

theorem reserved_key_shadows:
  assumes "key \<in> {''value'', ''selector'', ''nodeProps''}"
    and "distinct (map fst nodes)"
    and "map_of nodes key = Some child"
  shows "\<exists>a s1. invoke (Complex nodes) v s = Inr (Ref a, s1)
           \<and> map_of (props (heap s1 ! a)) key = Some (AccessorProperty (Getter child v key) True True)
           \<and> read_property s1 (Ref a) key = invoke child (v @ ''/'' @ key) s1"
  using read_declared_child [OF assms(2,3), of v s] assms(1) by auto

text \<open>\<^verbatim>\<open>complex({ selector: simple })("root").selector.value\<close> is \<^verbatim>\<open>"root/selector"\<close>.\<close>

theorem reserved_key_shadows_witness:
  "''selector'' \<in> {''value'', ''selector'', ''nodeProps''}
   \<and> distinct (map fst [(''selector'', Simple)])
   \<and> map_of [(''selector'', Simple)] ''selector'' = Some Simple
   \<and> (\<exists>a s1. invoke (Complex [(''selector'', Simple)]) ''root'' init = Inr (Ref a, s1)
         \<and> map_of (props (heap s1 ! a)) ''selector'' =
             Some (AccessorProperty (Getter Simple ''root'' ''selector'') True True)
         \<and> read_property s1 (Ref a) ''selector'' = invoke Simple ''root/selector'' s1)
   \<and> run (Complex [(''selector'', Simple)]) ''root'' [Field ''selector'', Field ''value'']
       = Inr (Str ''root/selector'')"
proof -
  have "run (Complex [(''selector'', Simple)]) ''root'' [Field ''selector'', Field ''value'']
       = Inr (Str ''root/selector'')"
    by (simp add: run_def invoke_built init_def marker_props_def attr_obj_def read_property_def
      lookup_def template_path_def)
  then show ?thesis
    using reserved_key_shadows [of "''selector''" "[(''selector'', Simple)]" Simple "''root''" init]
    by simp
qed

section \<open>Selector and nodeProps\<close>

text \<open>
  Claim C2, as the code has it. For every Marker produced by \<^verbatim>\<open>simple\<close>, by a
  \<^verbatim>\<open>byKey\<close> schema, or by a composite that declares no child named \<^verbatim>\<open>selector\<close>,
  the selector is the literal concatenation \<^verbatim>\<open>"[data-test='" + v + "']"\<close> of the
  path \<open>v\<close> the schema was called with, whatever characters \<open>v\<close> contains; and \<open>v\<close>
  is the Marker's value unless the composite declares a child named \<^verbatim>\<open>value\<close>.
\<close>

theorem selector_derivation:
  assumes "well_keyed S" and "\<not> declares S ''selector''"
  shows "\<exists>a s1. invoke S v s = Inr (Ref a, s1)
           \<and> read_property s1 (Ref a) ''selector'' =
               Inr (Str (''[data-test='' @ [CHR 0x27] @ v @ [CHR 0x27] @ '']''), s1)
           \<and> (\<not> declares S ''value'' \<longrightarrow> read_property s1 (Ref a) ''value'' = Inr (Str v, s1))"
proof -
  from read_own_field [OF assms, of v s] obtain a s1 where
    1: "invoke S v s = Inr (Ref a, s1)"
    "read_property s1 (Ref a) ''selector'' =
               Inr (Str (''[data-test='' @ [CHR 0x27] @ v @ [CHR 0x27] @ '']''), s1)"
    by (auto simp: map_of_marker_props)
  have "read_property s1 (Ref a) ''value'' = Inr (Str v, s1)" if "\<not> declares S ''value''"
    using kept_value [OF assms(1) that, of v s] 1(1) by auto
  with 1 show ?thesis by blast
qed

text \<open>A path with a quote, brackets and a separator is copied as it is.\<close>

theorem selector_derivation_witness:
  "well_keyed (ByKey Simple) \<and> \<not> declares (ByKey Simple) ''selector''
   \<and> \<not> declares (ByKey Simple) ''value''
   \<and> (\<exists>a s1. invoke (ByKey Simple) ''it's [a]/b'' init = Inr (Ref a, s1)
         \<and> read_property s1 (Ref a) ''selector'' = Inr (Str ''[data-test='it's [a]/b']'', s1)
         \<and> read_property s1 (Ref a) ''value'' = Inr (Str ''it's [a]/b'', s1))"
  using selector_derivation [of "ByKey Simple" "''it's [a]/b''" init]
  by (simp add: well_keyed_def declares_def)

text \<open>
  Claim C2 as stated fails for a composite that declares a child named
  \<^verbatim>\<open>selector\<close>: the \<^verbatim>\<open>selector\<close> of \<^verbatim>\<open>complex({ selector: simple })("root")\<close> is an
  object (the child Marker), not the string \<^verbatim>\<open>"[data-test='root']"\<close>.
\<close>

theorem selector_derivation_counterexample:
  "run (Complex [(''selector'', Simple)]) ''root'' [Field ''selector''] = Inr (Ref 3)
   \<and> run (Complex [(''selector'', Simple)]) ''root'' [Field ''selector'']
       \<noteq> Inr (Str ''[data-test='root']'')"
  by (simp add: run_def invoke_built init_def marker_props_def attr_obj_def read_property_def
      lookup_def template_path_def)

text \<open>
  Claim C5, as the code has it. For every Marker produced by \<^verbatim>\<open>simple\<close>, by a
  \<^verbatim>\<open>byKey\<close> schema, or by a composite that declares no child named \<^verbatim>\<open>nodeProps\<close>,
  \<^verbatim>\<open>nodeProps\<close> is an object with the single entry \<^verbatim>\<open>"data-test"\<close>, whose value is
  the path \<open>v\<close> the schema was called with; and \<open>v\<close> is the Marker's value unless the
  composite declares a child named \<^verbatim>\<open>value\<close>.
\<close>

theorem nodeProps_law:
  assumes "well_keyed S" and "\<not> declares S ''nodeProps''"
  shows "\<exists>a n s1. invoke S v s = Inr (Ref a, s1)
           \<and> read_property s1 (Ref a) ''nodeProps'' = Inr (Ref n, s1)
           \<and> lookup s1 n = Some (Obj [(''data-test'', DataProperty (Str v) True True True)] None)
           \<and> read_property s1 (Ref n) ''data-test'' = Inr (Str v, s1)
           \<and> (\<not> declares S ''value'' \<longrightarrow> read_property s1 (Ref a) ''value'' = Inr (Str v, s1))"
proof -
  from read_own_field [OF assms, of v s] obtain a n s1 where
    1: "invoke S v s = Inr (Ref a, s1)"
    "read_property s1 (Ref a) ''nodeProps'' = Inr (Ref n, s1)"
    "lookup s1 n = Some (attr_obj v)"
    by (auto simp: map_of_marker_props)
  have 2: "read_property s1 (Ref n) ''data-test'' = Inr (Str v, s1)"
    by (simp add: read_property_at [OF 1(3)] attr_obj_def DATA_TEST_ATTR_def)
  have "read_property s1 (Ref a) ''value'' = Inr (Str v, s1)" if "\<not> declares S ''value''"
    using kept_value [OF assms(1) that, of v s] 1(1) by auto
  with 1 2 show ?thesis
    by (auto simp: attr_obj_def DATA_TEST_ATTR_def)
qed

text \<open>\<^verbatim>\<open>complex({ header: simple })("root").nodeProps\<close> is \<^verbatim>\<open>{ "data-test": "root" }\<close>.\<close>

theorem nodeProps_law_witness:
  "well_keyed (Complex [(''header'', Simple)]) \<and> \<not> declares (Complex [(''header'', Simple)]) ''nodeProps''
   \<and> \<not> declares (Complex [(''header'', Simple)]) ''value''
   \<and> (\<exists>a n s1. invoke (Complex [(''header'', Simple)]) ''root'' init = Inr (Ref a, s1)
         \<and> read_property s1 (Ref a) ''nodeProps'' = Inr (Ref n, s1)
         \<and> lookup s1 n = Some (Obj [(''data-test'', DataProperty (Str ''root'') True True True)] None)
         \<and> read_property s1 (Ref n) ''data-test'' = Inr (Str ''root'', s1)
         \<and> read_property s1 (Ref a) ''value'' = Inr (Str ''root'', s1))"
  using nodeProps_law [of "Complex [(''header'', Simple)]" "''root''" init]
  by (simp add: well_keyed_def declares_def)

text \<open>
  Claim C5 as stated fails for a composite that declares a child named
  \<^verbatim>\<open>nodeProps\<close>: the \<^verbatim>\<open>nodeProps\<close> of \<^verbatim>\<open>complex({ nodeProps: simple })("root")\<close>
  is the child Marker, with no \<^verbatim>\<open>"data-test"\<close> entry and the value
  \<^verbatim>\<open>"root/nodeProps"\<close>.
\<close>

theorem nodeProps_law_counterexample:
  "run (Complex [(''nodeProps'', Simple)]) ''root'' [Field ''nodeProps'', Field ''data-test''] = Inr Undefined
   \<and> run (Complex [(''nodeProps'', Simple)]) ''root'' [Field ''nodeProps'', Field ''data-test'']
       \<noteq> Inr (Str ''root'')
   \<and> run (Complex [(''nodeProps'', Simple)]) ''root'' [Field ''nodeProps'', Field ''value'']
       = Inr (Str ''root/nodeProps'')"
  by (simp add: run_def invoke_built init_def marker_props_def attr_obj_def read_property_def
      lookup_def template_path_def DATA_TEST_ATTR_def)

section \<open>Purity\<close>

lemma invoke_extends:
  assumes "invoke S v s = Inr (r, t)"
  shows "\<exists>a new. r = Ref a \<and> heap t = heap s @ new \<and> length new = 2
           \<and> length (heap s) \<le> a \<and> a < length (heap t)
           \<and> calls t = calls s @ [(S, v)]"
  using assms
  by (cases S) (auto simp: invoke_built split: sum.splits)

lemma invoke_succeeds_again:
  assumes "invoke S v s1 = Inr (r, t)"
  shows "\<exists>r' t'. invoke S v s2 = Inr (r', t')"
proof (cases "invoke S v s2")
  case (Inl e)
  from invoke_extends [OF assms] obtain a where "r = Ref a" by blast
  with invoke_pure [of 0 S v s1 s2] assms Inl show ?thesis
    by (simp add: observe_result_def)
next
  case (Inr p)
  then show ?thesis by (cases p) simp
qed

lemma lookup_extends:
  "heap t = heap s @ new \<Longrightarrow> lookup s a = Some ob \<Longrightarrow> lookup t a = Some ob"
  by (auto simp: lookup_def nth_append split: if_splits)

lemma read_property_extends:
  assumes "heap t = heap s @ new" and "lookup s a = Some ob"
  shows "read_property t (Ref a) k =
           (case map_of (props ob) k of None \<Rightarrow> Inr (Undefined, t) | Some p \<Rightarrow> read_slot t p)"
  using lookup_extends [OF assms] by (simp add: read_property_def)

lemma invoke_twice:
  assumes "invoke S v s = Inr (r1, t1)"
  shows "\<exists>r2 t2 a1 a2 new. invoke S v t1 = Inr (r2, t2)
           \<and> r1 = Ref a1 \<and> r2 = Ref a2 \<and> a1 < length (heap t1) \<and> length (heap t1) \<le> a2
           \<and> heap t2 = heap t1 @ new \<and> length new = 2
           \<and> calls t2 = calls t1 @ [(S, v)]
           \<and> (\<forall>d. observe d t1 r1 = observe d t2 r2)"
proof -
  from invoke_succeeds_again [OF assms, of t1] obtain r2 t2 where
    2: "invoke S v t1 = Inr (r2, t2)" by blast
  from invoke_extends [OF assms] obtain a1 where
    a1: "r1 = Ref a1" "a1 < length (heap t1)" by blast
  from invoke_extends [OF 2] obtain a2 new where
    a2: "r2 = Ref a2" "heap t2 = heap t1 @ new" "length new = 2" "length (heap t1) \<le> a2"
    "calls t2 = calls t1 @ [(S, v)]" by blast
  have "observe d t1 r1 = observe d t2 r2" for d
    using invoke_pure [of d S v s t1] by (simp add: assms 2 observe_result_def)
  with 2 a1 a2 show ?thesis by blast
qed

text \<open>
  Claim C7. Invoking the same schema (built by \<^verbatim>\<open>simple\<close>, \<^verbatim>\<open>complex\<close> or
  \<^verbatim>\<open>byKey\<close>) with the same root value in any two stores gives results with the same
  view at every depth: the same own fields, the same results for every declared
  child and for every key of a keyed container. A second invocation after the
  first succeeds as the first did, returns a different object, and allocates its two
  objects anew, leaving the store it found unchanged. The same holds for two calls
  of a keyed container with the same key.
\<close>

theorem schema_purity:
  "(\<forall>d. observe_result d (invoke S v s1) = observe_result d (invoke S v s2))
   \<and> (invoke S v s = Inr (r1, t1) \<longrightarrow>
        (\<exists>r2 t2 new. invoke S v t1 = Inr (r2, t2)
           \<and> r1 \<noteq> r2
           \<and> heap t2 = heap t1 @ new \<and> length new = 2
           \<and> (\<forall>d. observe d t1 r1 = observe d t2 r2)))
   \<and> (call_function u k x = Inr (m1, u1) \<longrightarrow>
        (\<exists>m2 u2 new. call_function u1 k x = Inr (m2, u2)
           \<and> m1 \<noteq> m2
           \<and> heap u2 = heap u1 @ new \<and> length new = 2
           \<and> (\<forall>d. observe d u1 m1 = observe d u2 m2)))"
proof (intro conjI impI allI)
  show "observe_result d (invoke S v s1) = observe_result d (invoke S v s2)" for d
    by (rule invoke_pure)
next
  assume "invoke S v s = Inr (r1, t1)"
  from invoke_twice [OF this]
  show "\<exists>r2 t2 new. invoke S v t1 = Inr (r2, t2)
           \<and> r1 \<noteq> r2
           \<and> heap t2 = heap t1 @ new \<and> length new = 2
           \<and> (\<forall>d. observe d t1 r1 = observe d t2 r2)"
    by fastforce
next
  assume c: "call_function u k x = Inr (m1, u1)"
  then obtain a ob schema w where
    k: "k = Ref a" "lookup u a = Some ob" "callee ob = Some (KeyFn schema w)"
    and i: "invoke schema (template_path w (to_string x)) u = Inr (m1, u1)"
    by (auto simp: call_function_def split: jsval.splits option.splits keyfn.splits)
  from invoke_extends [OF i] obtain new where "heap u1 = heap u @ new" by blast
  from lookup_extends [OF this k(2)]
  have "call_function u1 k x = invoke schema (template_path w (to_string x)) u1"
    by (simp add: call_function_def k)
  with invoke_twice [OF i]
  show "\<exists>m2 u2 new. call_function u1 k x = Inr (m2, u2)
           \<and> m1 \<noteq> m2
           \<and> heap u2 = heap u1 @ new \<and> length new = 2
           \<and> (\<forall>d. observe d u1 m1 = observe d u2 m2)"
    by fastforce
qed

text \<open>
  \<^verbatim>\<open>simple("root")\<close> twice, and \<^verbatim>\<open>byKey(simple)("items")(2)\<close> twice.
\<close>

theorem schema_purity_witness:
  "invoke Simple ''root'' init =
     Inr (Ref 1, \<lparr>heap = [attr_obj ''root'', Obj (marker_props ''root'' 0) None],
                   calls = [(Simple, ''root'')]\<rparr>)
   \<and> (\<exists>r2 t2 new.
         invoke Simple ''root''
           \<lparr>heap = [attr_obj ''root'', Obj (marker_props ''root'' 0) None],
             calls = [(Simple, ''root'')]\<rparr> = Inr (r2, t2)
         \<and> Ref 1 \<noteq> r2
         \<and> heap t2 = [attr_obj ''root'', Obj (marker_props ''root'' 0) None] @ new
         \<and> length new = 2
         \<and> (\<forall>d. observe d \<lparr>heap = [attr_obj ''root'', Obj (marker_props ''root'' 0) None],
                             calls = [(Simple, ''root'')]\<rparr> (Ref 1) = observe d t2 r2))
   \<and> call_function
         \<lparr>heap = [Obj (marker_props ''items'' 1) (Some (KeyFn Simple ''items'')), attr_obj ''items''],
           calls = [(ByKey Simple, ''items'')]\<rparr> (Ref 0) (NumKey 2) =
       Inr (Ref 3,
            \<lparr>heap = [Obj (marker_props ''items'' 1) (Some (KeyFn Simple ''items'')), attr_obj ''items'',
                     attr_obj ''items/2'', Obj (marker_props ''items/2'' 2) None],
              calls = [(ByKey Simple, ''items''), (Simple, ''items/2'')]\<rparr>)
   \<and> (\<exists>m2 u2 new.
         call_function
           \<lparr>heap = [Obj (marker_props ''items'' 1) (Some (KeyFn Simple ''items'')), attr_obj ''items'',
                    attr_obj ''items/2'', Obj (marker_props ''items/2'' 2) None],
             calls = [(ByKey Simple, ''items''), (Simple, ''items/2'')]\<rparr> (Ref 0) (NumKey 2) = Inr (m2, u2)
         \<and> Ref 3 \<noteq> m2
         \<and> heap u2 =
               [Obj (marker_props ''items'' 1) (Some (KeyFn Simple ''items'')), attr_obj ''items'',
                attr_obj ''items/2'', Obj (marker_props ''items/2'' 2) None] @ new
         \<and> length new = 2
         \<and> (\<forall>d. observe d
                   \<lparr>heap = [Obj (marker_props ''items'' 1) (Some (KeyFn Simple ''items'')), attr_obj ''items'',
                            attr_obj ''items/2'', Obj (marker_props ''items/2'' 2) None],
                     calls = [(ByKey Simple, ''items''), (Simple, ''items/2'')]\<rparr> (Ref 3) = observe d u2 m2))"
proof -
  let ?t1 = "\<lparr>heap = [attr_obj ''root'', Obj (marker_props ''root'' 0) None],
             calls = [(Simple, ''root'')]\<rparr>"
  let ?s = "\<lparr>heap = [Obj (marker_props ''items'' 1) (Some (KeyFn Simple ''items'')), attr_obj ''items''],
           calls = [(ByKey Simple, ''items'')]\<rparr>"
  let ?u1 = "\<lparr>heap = [Obj (marker_props ''items'' 1) (Some (KeyFn Simple ''items'')), attr_obj ''items'',
                     attr_obj ''items/2'', Obj (marker_props ''items/2'' 2) None],
              calls = [(ByKey Simple, ''items''), (Simple, ''items/2'')]\<rparr>"
  have 1: "invoke Simple ''root'' init = Inr (Ref 1, ?t1)"
    by (simp add: invoke_Simple init_def)
  have d2: "to_string (NumKey 2) = ''2''"
    by code_simp
  have two: "Suc (Suc 0) = 2"
    by simp
  have 2: "call_function ?s (Ref 0) (NumKey 2) = Inr (Ref 3, ?u1)"
    by (simp add: call_function_def lookup_def invoke_Simple template_path_def d2 two
        del: to_string.simps)
  from schema_purity [where S = Simple and v = "''root''" and s = init and ?s1.0 = init and ?s2.0 = init
      and ?r1.0 = "Ref 1" and ?t1.0 = ?t1 and u = ?s and k = "Ref 0" and x = "NumKey 2"
      and ?m1.0 = "Ref 3" and ?u1.0 = ?u1]
  show ?thesis
    unfolding 1 2 by simp
qed

section \<open>Laziness\<close>

text \<open>
  Claim C4. Invoking \<^verbatim>\<open>complex(nodes)\<close> with a root value calls no schema of
  \<open>nodes\<close>: the log gains the one entry of the composite itself and the store the
  two objects of its own base Marker (the object and its \<^verbatim>\<open>nodeProps\<close>), so no
  descendant Marker is constructed. (The log holds the calls of schema values; the
  composite's own use of the leaf constructor for its base Marker is part of its
  body.) Each read of a declared child field is one call of that child's schema
  with the child path, and adds exactly that entry to the log. Reading the field
  again calls the schema again (nothing is memoized), returns a different object,
  and that object has the same view at every depth.
\<close>

theorem lazy_children:
  assumes "distinct (map fst nodes)" and "map_of nodes k = Some child"
  shows "\<exists>a s1. invoke (Complex nodes) v s = Inr (Ref a, s1)
           \<and> calls s1 = calls s @ [(Complex nodes, v)]
           \<and> length (heap s1) = length (heap s) + 2
           \<and> read_property s1 (Ref a) k = invoke child (v @ ''/'' @ k) s1
           \<and> (\<forall>m s2. read_property s1 (Ref a) k = Inr (m, s2) \<longrightarrow>
                 calls s2 = calls s1 @ [(child, v @ ''/'' @ k)]
                 \<and> read_property s2 (Ref a) k = invoke child (v @ ''/'' @ k) s2
                 \<and> (\<exists>m' s3. read_property s2 (Ref a) k = Inr (m', s3)
                        \<and> calls s3 = calls s2 @ [(child, v @ ''/'' @ k)]
                        \<and> m' \<noteq> m
                        \<and> (\<forall>d. observe d s3 m' = observe d s2 m)))"
proof -
  from read_declared_child [OF assms, of v s] obtain a s1 where
    inv: "invoke (Complex nodes) v s = Inr (Ref a, s1)"
    and lk: "lookup s1 a \<noteq> None"
    and slot: "map_of (props (heap s1 ! a)) k =
               Some (AccessorProperty (Getter child v k)
                      (k \<in> {''value'', ''selector'', ''nodeProps''})
                      (k \<in> {''value'', ''selector'', ''nodeProps''}))"
    and rd: "read_property s1 (Ref a) k = invoke child (v @ ''/'' @ k) s1"
    and cl: "calls s1 = calls s @ [(Complex nodes, v)]"
    and hp: "length (heap s1) = length (heap s) + 2"
    by blast
  have lk1: "lookup s1 a = Some (heap s1 ! a)"
    using lk by (auto simp: lookup_def split: if_splits)
  have again: "calls s2 = calls s1 @ [(child, v @ ''/'' @ k)]
                 \<and> read_property s2 (Ref a) k = invoke child (v @ ''/'' @ k) s2
                 \<and> (\<exists>m' s3. read_property s2 (Ref a) k = Inr (m', s3)
                        \<and> calls s3 = calls s2 @ [(child, v @ ''/'' @ k)]
                        \<and> m' \<noteq> m
                        \<and> (\<forall>d. observe d s3 m' = observe d s2 m))"
    if "read_property s1 (Ref a) k = Inr (m, s2)" for m s2
  proof -
    from that rd have i: "invoke child (v @ ''/'' @ k) s1 = Inr (m, s2)" by simp
    from invoke_extends [OF i] obtain new where
      ext: "heap s2 = heap s1 @ new" and c2: "calls s2 = calls s1 @ [(child, v @ ''/'' @ k)]"
      by blast
    have rd2: "read_property s2 (Ref a) k = invoke child (v @ ''/'' @ k) s2"
      by (simp add: read_property_extends [OF ext lk1] slot template_path_def)
    from invoke_twice [OF i] obtain m' s3 where
      "invoke child (v @ ''/'' @ k) s2 = Inr (m', s3)" "m' \<noteq> m"
      "calls s3 = calls s2 @ [(child, v @ ''/'' @ k)]"
      "\<forall>d. observe d s2 m = observe d s3 m'"
      by fastforce
    with c2 rd2 show ?thesis by auto
  qed
  from inv cl hp rd again show ?thesis by blast
qed

text \<open>Reading \<^verbatim>\<open>footer\<close> twice on \<^verbatim>\<open>complex({ header: simple, footer: complex({ links: simple }) })("root")\<close>.\<close>

theorem lazy_children_witness:
  "distinct (map fst [(''header'', Simple), (''footer'', Complex [(''links'', Simple)])])
   \<and> map_of [(''header'', Simple), (''footer'', Complex [(''links'', Simple)])] ''footer''
        = Some (Complex [(''links'', Simple)])
   \<and> (\<exists>a s1. invoke (Complex [(''header'', Simple), (''footer'', Complex [(''links'', Simple)])]) ''root'' init
                = Inr (Ref a, s1)
         \<and> calls s1 = [(Complex [(''header'', Simple), (''footer'', Complex [(''links'', Simple)])], ''root'')]
         \<and> length (heap s1) = 2
         \<and> (\<exists>m s2. read_property s1 (Ref a) ''footer'' = Inr (m, s2)
               \<and> calls s2 = calls s1 @ [(Complex [(''links'', Simple)], ''root/footer'')]
               \<and> (\<exists>m' s3. read_property s2 (Ref a) ''footer'' = Inr (m', s3)
                      \<and> calls s3 = calls s2 @ [(Complex [(''links'', Simple)], ''root/footer'')]
                      \<and> m' \<noteq> m
                      \<and> (\<forall>d. observe d s3 m' = observe d s2 m))))"
proof -
  let ?nodes = "[(''header'', Simple), (''footer'', Complex [(''links'', Simple)])]"
  let ?child = "Complex [(''links'', Simple)]"
  have h1: "distinct (map fst ?nodes)" by simp
  have h2: "map_of ?nodes ''footer'' = Some ?child" by simp
  have eq: "''root'' @ ''/'' @ ''footer'' = ''root/footer''" by simp
  from lazy_children [OF h1 h2, of "''root''" init, unfolded eq]
  obtain a s1 where
    1: "invoke (Complex ?nodes) ''root'' init = Inr (Ref a, s1)"
    and 2: "calls s1 = calls init @ [(Complex ?nodes, ''root'')]"
    and 3: "length (heap s1) = length (heap init) + 2"
    and 4: "read_property s1 (Ref a) ''footer'' = invoke ?child ''root/footer'' s1"
    and 5: "\<forall>m s2. read_property s1 (Ref a) ''footer'' = Inr (m, s2) \<longrightarrow>
                 calls s2 = calls s1 @ [(?child, ''root/footer'')]
                 \<and> read_property s2 (Ref a) ''footer'' = invoke ?child ''root/footer'' s2
                 \<and> (\<exists>m' s3. read_property s2 (Ref a) ''footer'' = Inr (m', s3)
                        \<and> calls s3 = calls s2 @ [(?child, ''root/footer'')]
                        \<and> m' \<noteq> m
                        \<and> (\<forall>d. observe d s3 m' = observe d s2 m))"
    by blast
  have "distinct (map fst [(''links'', Simple)])" by simp
  from invoke_Complex [OF this, of "''root/footer''" s1] obtain m s2 where
    "invoke ?child ''root/footer'' s1 = Inr (m, s2)"
    by blast
  with 4 have 6: "read_property s1 (Ref a) ''footer'' = Inr (m, s2)" by simp
  from 5 6 have 7: "calls s2 = calls s1 @ [(?child, ''root/footer'')]
                 \<and> (\<exists>m' s3. read_property s2 (Ref a) ''footer'' = Inr (m', s3)
                        \<and> calls s3 = calls s2 @ [(?child, ''root/footer'')]
                        \<and> m' \<noteq> m
                        \<and> (\<forall>d. observe d s3 m' = observe d s2 m))"
    by blast
  have c2: "calls s1 = [(Complex ?nodes, ''root'')]"
    using 2 by (simp add: init_def)
  have c3: "length (heap s1) = 2"
    using 3 by (simp add: init_def)
  from h1 h2 1 c2 c3 6 7 show ?thesis by blast
qed

section \<open>Keyed containers\<close>

text \<open>A number key always stringifies to a non-empty string without the separator.\<close>

lemma digit_char_no_sep: "d < 10 \<Longrightarrow> char_of (48 + d :: nat) \<noteq> CHR ''/''"
proof
  assume d: "d < 10" and "char_of (48 + d) = CHR ''/''"
  then have "of_char (char_of (48 + d) :: char) = (of_char (CHR ''/'') :: nat)" by simp
  with d show False by (simp add: of_char_of)
qed

lemma digits_wf: "digits n \<noteq> [] \<and> CHR ''/'' \<notin> set (digits n)"
proof (induction n rule: digits.induct)
  case (1 n)
  show ?case
  proof (cases "n < 10")
    case True
    then show ?thesis
      using digit_char_no_sep [of n] by (simp add: digits.simps [of n])
  next
    case False
    with 1 digit_char_no_sep [of "n mod 10"] show ?thesis
      by (simp add: digits.simps [of n])
  qed
qed

lemma number_key_wf: "wf_segment (to_string (NumKey n))"
  using digits_wf [of "nat n"] digits_wf [of "nat (- n)"]
  by (simp add: wf_segment_def)

lemma segments_not_Nil [simp]: "segments p \<noteq> []"
  by (induction p) (auto split: list.splits)

lemma segments_no_sep: "CHR ''/'' \<notin> set k \<Longrightarrow> segments k = [k]"
  by (induction k) auto

lemma segments_append_sep:
  "segments (p @ ''/'' @ k) = segments p @ segments k"
  by (induction p) (auto split: list.splits)

lemma segments_child:
  "CHR ''/'' \<notin> set k \<Longrightarrow> segments (p @ ''/'' @ k) = segments p @ [k]"
  by (simp add: segments_append_sep segments_no_sep del: append.simps)

lemma byKey_container_shape:
  "\<exists>a n s1. invoke (ByKey S) v s = Inr (Ref a, s1)
     \<and> lookup s1 a =
         Some (Obj [(''value'', DataProperty (Str v) True True True),
                    (''selector'', DataProperty (Str (''[data-test='' @ [CHR 0x27] @ v @ [CHR 0x27] @ '']'')) True True True),
                    (''nodeProps'', DataProperty (Ref n) True True True)]
                   (Some (KeyFn S v)))
     \<and> lookup s1 n = Some (Obj [(''data-test'', DataProperty (Str v) True True True)] None)
     \<and> calls s1 = calls s @ [(ByKey S, v)]
     \<and> length (heap s1) = length (heap s) + 2"
  unfolding invoke_ByKey
  by (rule exI [of _ "length (heap s)"], rule exI [of _ "Suc (length (heap s))"],
      rule exI [of _ "s\<lparr>heap := heap s @ [Obj (marker_props v (Suc (length (heap s)))) (Some (KeyFn S v)), attr_obj v],
            calls := calls s @ [(ByKey S, v)]\<rparr>"])
     (simp add: lookup_def nth_append marker_props_def attr_obj_def DATA_TEST_ATTR_def)

lemma simple_fields:
  "simple v t = (m, t') \<Longrightarrow>
   observe_result d (read_property t' m ''value'') = VStr v
   \<and> observe_result d (read_property t' m ''selector'') = VStr (''[data-test='' @ [CHR 0x27] @ v @ [CHR 0x27] @ '']'')
   \<and> observe_result d (read_property t' m ''nodeProps'') =
        (case d of 0 \<Rightarrow> VCut | Suc d' \<Rightarrow> VObj [(''data-test'', VStr v)] None)"
  by (cases d)
     (auto simp: simple_built read_property_def lookup_def nth_append marker_props_def attr_obj_def
       DATA_TEST_ATTR_def observe_result_def)



text \<open>
  Claim C3, as the code has it. For every wrapped schema \<open>S\<close>, container value \<open>v\<close> and
  key \<open>x\<close> (a string or an integer, converted to a string), calling the object
  produced by \<^verbatim>\<open>byKey(S)(v)\<close> with \<open>x\<close> is exactly the call
  \<^verbatim>\<open>S(v + "/" + stringify(x))\<close>. When \<open>S\<close> is \<^verbatim>\<open>simple\<close>, a \<^verbatim>\<open>byKey\<close> schema or a
  composite that declares no child named \<^verbatim>\<open>value\<close>, the value of the Marker
  returned is that path; two keys that stringify differently give different paths,
  and when neither stringified key contains the separator the two paths differ
  only in the final segment. The container itself is a Marker whose value is \<open>v\<close>,
  with \<^verbatim>\<open>selector\<close> and \<^verbatim>\<open>nodeProps\<close> as the leaf constructor computes them over \<open>v\<close>.
\<close>

theorem keyed_addressing:
  "\<exists>a s1. invoke (ByKey S) v s = Inr (Ref a, s1)
     \<and> read_property s1 (Ref a) ''value'' = Inr (Str v, s1)
     \<and> (\<forall>d t. observe_result d (read_property s1 (Ref a) ''selector'')
                 = observe_result d (read_property (snd (simple v t)) (fst (simple v t)) ''selector'')
              \<and> observe_result d (read_property s1 (Ref a) ''nodeProps'')
                 = observe_result d (read_property (snd (simple v t)) (fst (simple v t)) ''nodeProps''))
     \<and> (\<forall>x. call_function s1 (Ref a) x = invoke S (v @ ''/'' @ to_string x) s1)
     \<and> (well_keyed S \<and> \<not> declares S ''value'' \<longrightarrow>
          (\<forall>x. \<exists>m s2. call_function s1 (Ref a) x = Inr (m, s2)
                 \<and> read_property s2 m ''value'' = Inr (Str (v @ ''/'' @ to_string x), s2)))
     \<and> (\<forall>x1 x2. to_string x1 \<noteq> to_string x2 \<longrightarrow>
          v @ ''/'' @ to_string x1 \<noteq> v @ ''/'' @ to_string x2
          \<and> (CHR ''/'' \<notin> set (to_string x1) \<and> CHR ''/'' \<notin> set (to_string x2) \<longrightarrow>
               butlast (segments (v @ ''/'' @ to_string x1)) = butlast (segments (v @ ''/'' @ to_string x2))
               \<and> last (segments (v @ ''/'' @ to_string x1)) = to_string x1
               \<and> last (segments (v @ ''/'' @ to_string x2)) = to_string x2))"
proof -
  from byKey_container_shape [of S v s] obtain a n s1 where
    inv: "invoke (ByKey S) v s = Inr (Ref a, s1)"
    and lk: "lookup s1 a =
         Some (Obj [(''value'', DataProperty (Str v) True True True),
                    (''selector'', DataProperty (Str (''[data-test='' @ [CHR 0x27] @ v @ [CHR 0x27] @ '']'')) True True True),
                    (''nodeProps'', DataProperty (Ref n) True True True)]
                   (Some (KeyFn S v)))"
    and lkn: "lookup s1 n = Some (Obj [(''data-test'', DataProperty (Str v) True True True)] None)"
    by blast
  have rv: "read_property s1 (Ref a) ''value'' = Inr (Str v, s1)"
    by (simp add: read_property_at [OF lk])
  have leaf: "observe_result d (read_property s1 (Ref a) ''selector'')
                 = observe_result d (read_property (snd (simple v t)) (fst (simple v t)) ''selector'')
              \<and> observe_result d (read_property s1 (Ref a) ''nodeProps'')
                 = observe_result d (read_property (snd (simple v t)) (fst (simple v t)) ''nodeProps'')"
    for d t
  proof -
    have "lookup s1 n = Some (attr_obj v)"
      using lkn by (simp add: attr_obj_def DATA_TEST_ATTR_def)
    from observe_attr_obj [OF this, of d] simple_fields [of v t "fst (simple v t)" "snd (simple v t)" d]
    show ?thesis
      by (auto simp: read_property_at [OF lk] observe_result_def)
  qed
  have c1: "call_function s1 (Ref a) x = invoke S (v @ ''/'' @ to_string x) s1" for x
    by (simp add: call_function_def lk template_path_def)
  have kept: "\<exists>m s2. call_function s1 (Ref a) x = Inr (m, s2)
                 \<and> read_property s2 m ''value'' = Inr (Str (v @ ''/'' @ to_string x), s2)"
    if "well_keyed S \<and> \<not> declares S ''value''" for x
    using kept_value [of S "v @ ''/'' @ to_string x" s1] that c1 by auto
  have segs: "butlast (segments (v @ ''/'' @ k1)) = butlast (segments (v @ ''/'' @ k2))
               \<and> last (segments (v @ ''/'' @ k1)) = k1
               \<and> last (segments (v @ ''/'' @ k2)) = k2"
    if "CHR ''/'' \<notin> set k1 \<and> CHR ''/'' \<notin> set k2" for k1 k2
    using that by (simp add: segments_child del: append.simps)
  from inv rv leaf c1 kept segs show ?thesis
    by (intro exI [of _ a] exI [of _ s1] conjI allI impI) auto
qed

text \<open>\<^verbatim>\<open>byKey(simple)("items")\<close> called with the number \<^verbatim>\<open>2\<close> and the string \<^verbatim>\<open>"10"\<close>.\<close>

theorem keyed_addressing_witness:
  "well_keyed Simple \<and> \<not> declares Simple ''value''
   \<and> to_string (NumKey 2) \<noteq> to_string (StrKey ''10'')
   \<and> CHR ''/'' \<notin> set (to_string (NumKey 2)) \<and> CHR ''/'' \<notin> set (to_string (StrKey ''10''))
   \<and> (\<exists>a s1. invoke (ByKey Simple) ''items'' init = Inr (Ref a, s1)
         \<and> read_property s1 (Ref a) ''value'' = Inr (Str ''items'', s1)
         \<and> call_function s1 (Ref a) (NumKey 2) = invoke Simple ''items/2'' s1
         \<and> (\<exists>m s2. call_function s1 (Ref a) (NumKey 2) = Inr (m, s2)
                \<and> read_property s2 m ''value'' = Inr (Str ''items/2'', s2))
         \<and> (\<exists>m s2. call_function s1 (Ref a) (StrKey ''10'') = Inr (m, s2)
                \<and> read_property s2 m ''value'' = Inr (Str ''items/10'', s2)))
   \<and> butlast (segments ''items/2'') = butlast (segments ''items/10'')
   \<and> last (segments ''items/2'') = ''2''
   \<and> last (segments ''items/10'') = ''10''"
proof -
  have d2: "to_string (NumKey 2) = ''2''"
    by code_simp
  have h: "well_keyed Simple \<and> \<not> declares Simple ''value''"
    by (simp add: well_keyed_def declares_def)
  have ne: "to_string (NumKey 2) \<noteq> to_string (StrKey ''10'')"
    unfolding d2 by simp
  have sep: "CHR ''/'' \<notin> set (to_string (NumKey 2)) \<and> CHR ''/'' \<notin> set (to_string (StrKey ''10''))"
    unfolding d2 by simp
  from keyed_addressing [of Simple "''items''" init] obtain a s1 where
    1: "invoke (ByKey Simple) ''items'' init = Inr (Ref a, s1)"
    and 2: "read_property s1 (Ref a) ''value'' = Inr (Str ''items'', s1)"
    and 3: "\<forall>x. call_function s1 (Ref a) x = invoke Simple (''items'' @ ''/'' @ to_string x) s1"
    and 4: "well_keyed Simple \<and> \<not> declares Simple ''value'' \<longrightarrow>
          (\<forall>x. \<exists>m s2. call_function s1 (Ref a) x = Inr (m, s2)
                 \<and> read_property s2 m ''value'' = Inr (Str (''items'' @ ''/'' @ to_string x), s2))"
    and 5: "\<forall>x1 x2. to_string x1 \<noteq> to_string x2 \<longrightarrow>
          ''items'' @ ''/'' @ to_string x1 \<noteq> ''items'' @ ''/'' @ to_string x2
          \<and> (CHR ''/'' \<notin> set (to_string x1) \<and> CHR ''/'' \<notin> set (to_string x2) \<longrightarrow>
               butlast (segments (''items'' @ ''/'' @ to_string x1)) = butlast (segments (''items'' @ ''/'' @ to_string x2))
               \<and> last (segments (''items'' @ ''/'' @ to_string x1)) = to_string x1
               \<and> last (segments (''items'' @ ''/'' @ to_string x2)) = to_string x2)"
    by blast
  from 3 have 3: "call_function s1 (Ref a) (NumKey 2) = invoke Simple ''items/2'' s1"
    by (simp add: d2 del: to_string.simps)
  from 4 h have 4: "\<exists>m s2. call_function s1 (Ref a) (NumKey 2) = Inr (m, s2)
                \<and> read_property s2 m ''value'' = Inr (Str ''items/2'', s2)"
    "\<exists>m s2. call_function s1 (Ref a) (StrKey ''10'') = Inr (m, s2)
                \<and> read_property s2 m ''value'' = Inr (Str ''items/10'', s2)"
    by (auto simp add: d2 simp del: to_string.simps dest: spec [of _ "NumKey 2"])
       (auto dest: spec [of _ "StrKey ''10''"])
  from 5 [rule_format, of "NumKey 2" "StrKey ''10''"] ne sep
  have 5: "butlast (segments ''items/2'') = butlast (segments ''items/10'')
   \<and> last (segments ''items/2'') = ''2''
   \<and> last (segments ''items/10'') = ''10''"
    unfolding d2 by simp
  from 1 2 3 4 have ex: "\<exists>a s1. invoke (ByKey Simple) ''items'' init = Inr (Ref a, s1)
         \<and> read_property s1 (Ref a) ''value'' = Inr (Str ''items'', s1)
         \<and> call_function s1 (Ref a) (NumKey 2) = invoke Simple ''items/2'' s1
         \<and> (\<exists>m s2. call_function s1 (Ref a) (NumKey 2) = Inr (m, s2)
                \<and> read_property s2 m ''value'' = Inr (Str ''items/2'', s2))
         \<and> (\<exists>m s2. call_function s1 (Ref a) (StrKey ''10'') = Inr (m, s2)
                \<and> read_property s2 m ''value'' = Inr (Str ''items/10'', s2))"
    by (intro exI [of _ a] exI [of _ s1] conjI)
  from h [THEN conjunct1] h [THEN conjunct2] ne sep [THEN conjunct1] sep [THEN conjunct2] ex
    5 [THEN conjunct1] 5 [THEN conjunct2, THEN conjunct1] 5 [THEN conjunct2, THEN conjunct2]
  show ?thesis
    by (intro conjI) assumption+
qed

text \<open>
  Claim C3 as stated fails for keys that contain the separator: with the keys
  \<^verbatim>\<open>"a/x"\<close> and \<^verbatim>\<open>"b/x"\<close>, the values \<^verbatim>\<open>"items/a/x"\<close> and \<^verbatim>\<open>"items/b/x"\<close> have the
  same final segment and differ in the one before it. It also fails for a wrapped
  composite that declares a child named \<^verbatim>\<open>value\<close>: the value of the Marker returned
  by the call is then an object, not a path.
\<close>

theorem keyed_addressing_counterexample:
  "run (ByKey Simple) ''items'' [Call (StrKey ''a/x''), Field ''value''] = Inr (Str ''items/a/x'')
   \<and> run (ByKey Simple) ''items'' [Call (StrKey ''b/x''), Field ''value''] = Inr (Str ''items/b/x'')
   \<and> segments ''items/a/x'' = [''items'', ''a'', ''x'']
   \<and> segments ''items/b/x'' = [''items'', ''b'', ''x'']
   \<and> run (ByKey (Complex [(''value'', Simple)])) ''items'' [Call (StrKey ''1''), Field ''value'']
       = Inr (Ref 5)"
  by (simp add: run_def invoke_built init_def marker_props_def attr_obj_def read_property_def
      call_function_def lookup_def template_path_def)

section \<open>Paths without empty segments\<close>

lemma wf_path_child:
  assumes "wf_path p" and "wf_segment k"
  shows "wf_path (template_path p k)"
proof -
  have "segments (p @ ''/'' @ k) = segments p @ [k]"
    using assms(2) by (simp add: wf_segment_def segments_child del: append.simps)
  with assms show ?thesis
    by (auto simp: wf_path_def wf_segment_def template_path_def simp del: append.simps)
qed

lemma set_update_subset:
  "set (AList.update k x ps) \<subseteq> insert (k, x) (set ps)"
  by (induction ps) auto

lemma define_all_good:
  assumes "define_all v nodes ps = Inr ps'"
    and "\<forall>(k, p) \<in> set ps. good_slot k p"
    and "wf_path v"
    and "\<forall>(k, child) \<in> set nodes. wf_segment k \<and> wf_schema child"
  shows "\<forall>(k, p) \<in> set ps'. good_slot k p"
  using assms
proof (induction nodes arbitrary: ps)
  case Nil
  then show ?case by simp
next
  case (Cons kc nodes)
  obtain key child where kc: "kc = (key, child)" by (cases kc)
  have new: "good_slot key (AccessorProperty (Getter child v key) e c)" for e c
    using Cons.prems(3,4) by (simp add: good_slot_def kc)
  have rest: "\<forall>(k, child) \<in> set nodes. wf_segment k \<and> wf_schema child"
    using Cons.prems(4) by simp
  show ?case
  proof (cases "map_of ps key")
    case None
    with Cons.prems(1) have d: "define_all v nodes (ps @ [(key, AccessorProperty (Getter child v key) False False)]) = Inr ps'"
      by (simp add: kc)
    have "\<forall>(k, p) \<in> set (ps @ [(key, AccessorProperty (Getter child v key) False False)]). good_slot k p"
      using Cons.prems(2) new by auto
    from Cons.IH [OF d this Cons.prems(3) rest] show ?thesis .
  next
    case (Some cur)
    with Cons.prems(1) have d: "define_all v nodes
        (AList.update key (AccessorProperty (Getter child v key) (enumerable cur) True) ps) = Inr ps'"
      by (simp add: kc split: if_splits)
    have "\<forall>(k, p) \<in> set (AList.update key (AccessorProperty (Getter child v key) (enumerable cur) True) ps).
            good_slot k p"
      using Cons.prems(2) new set_update_subset [of key _ ps] by blast
    from Cons.IH [OF d this Cons.prems(3) rest] show ?thesis .
  qed
qed

lemma marker_props_good:
  "wf_path v \<Longrightarrow> \<forall>(k, p) \<in> set (marker_props v n). good_slot k p"
  by (simp add: marker_props_def good_slot_def)

lemma attr_obj_good: "good_obj (attr_obj v)"
  by (simp add: attr_obj_def good_obj_def good_slot_def DATA_TEST_ATTR_def)

lemma marker_obj_good:
  assumes "wf_path v"
  shows "good_obj (Obj (marker_props v n) None)"
    and "wf_schema schema \<Longrightarrow> good_obj (Obj (marker_props v n) (Some (KeyFn schema v)))"
  using marker_props_good [OF assms, of n] assms by (simp_all add: good_obj_def)

lemma built_good:
  assumes "built S v n = Inr (a, objs)" and "wf_schema S" and "wf_path v"
  shows "\<forall>ob \<in> set objs. good_obj ob"
proof (cases S)
  case Simple
  with assms show ?thesis
    by (auto simp: attr_obj_good marker_obj_good)
next
  case (ByKey schema)
  with assms show ?thesis
    by (auto simp: attr_obj_good marker_obj_good)
next
  case (Complex nodes)
  with assms(1) obtain ps where
    ps: "define_all v nodes (marker_props v n) = Inr ps" and objs: "objs = [attr_obj v, Obj ps None]"
    by (auto split: sum.splits)
  have "\<forall>(k, child) \<in> set nodes. wf_segment k \<and> wf_schema child"
    using assms(2) Complex by simp
  from define_all_good [OF ps marker_props_good [OF assms(3)] assms(3) this]
  have "good_obj (Obj ps None)"
    by (simp add: good_obj_def)
  then show ?thesis
    by (simp add: objs attr_obj_good)
qed

lemma invoke_good:
  assumes "invoke S v s = Inr (r, s')" and "good_state s" and "wf_schema S" and "wf_path v"
  shows "good_state s'"
proof -
  from assms(1) obtain a objs where
    b: "built S v (length (heap s)) = Inr (a, objs)"
    and s': "s' = s\<lparr>heap := heap s @ objs, calls := calls s @ [(S, v)]\<rparr>"
    by (cases "built S v (length (heap s))") (auto simp: invoke_built)
  from built_good [OF b assms(3,4)] assms(2,4) show ?thesis
    by (auto simp: s' good_state_def)
qed

lemma read_property_good:
  assumes "read_property s r k = Inr (r', s')" and "good_state s"
  shows "good_state s'"
proof (cases r)
  case Undefined
  with assms show ?thesis by (simp add: read_property_def)
next
  case (Str x)
  with assms show ?thesis by (simp add: read_property_def)
next
  case (Ref a)
  with assms(1) obtain ob where lk: "lookup s a = Some ob"
    by (auto simp: read_property_def split: option.splits)
  then have ob: "ob \<in> set (heap s)"
    by (auto simp: lookup_def split: if_splits)
  show ?thesis
  proof (cases "map_of (props ob) k")
    case None
    with assms lk Ref show ?thesis by (simp add: read_property_def)
  next
    case (Some p)
    then have "(k, p) \<in> set (props ob)" by (rule map_of_SomeD)
    with ob assms(2) have g: "good_slot k p"
      by (auto simp: good_state_def good_obj_def)
    show ?thesis
    proof (cases p)
      case (DataProperty x w e c)
      with assms lk Ref Some show ?thesis by (simp add: read_property_def)
    next
      case (AccessorProperty gt e c)
      obtain child w key where gt: "gt = Getter child w key" by (cases gt)
      from assms(1) have i: "invoke child (template_path w key) s = Inr (r', s')"
        by (simp add: read_property_def Ref lk Some AccessorProperty gt)
      from g have "wf_schema child" "wf_path (template_path w key)"
        by (simp_all add: good_slot_def AccessorProperty gt wf_path_child)
      from invoke_good [OF i assms(2) this] show ?thesis .
    qed
  qed
qed

lemma call_function_good:
  assumes "call_function s r x = Inr (r', s')" and "good_state s" and "wf_segment (to_string x)"
  shows "good_state s'"
proof -
  from assms(1) obtain a ob schema w where
    lk: "lookup s a = Some ob" and c: "callee ob = Some (KeyFn schema w)"
    and i: "invoke schema (template_path w (to_string x)) s = Inr (r', s')"
    by (auto simp: call_function_def split: jsval.splits option.splits keyfn.splits)
  from lk have "ob \<in> set (heap s)"
    by (auto simp: lookup_def split: if_splits)
  with assms(2) c have "wf_schema schema" "wf_path w"
    by (auto simp: good_state_def good_obj_def)
  with assms(3) have "wf_schema schema" "wf_path (template_path w (to_string x))"
    by (simp_all add: wf_path_child)
  from invoke_good [OF i assms(2) this] show ?thesis .
qed

lemma navigate_good:
  assumes "navigate s r steps = Inr (m, s')" and "good_state s" and "\<forall>st \<in> set steps. wf_step st"
  shows "good_state s'"
  using assms
proof (induction steps arbitrary: s r)
  case Nil
  then show ?case by simp
next
  case (Cons st steps)
  show ?case
  proof (cases st)
    case (Field k)
    with Cons.prems(1) obtain r1 t where
      1: "read_property s r k = Inr (r1, t)" and 2: "navigate t r1 steps = Inr (m, s')"
      by (auto split: sum.splits)
    from Cons.IH [OF 2 read_property_good [OF 1 Cons.prems(2)]] Cons.prems(3)
    show ?thesis by simp
  next
    case (Call x)
    with Cons.prems(1) obtain r1 t where
      1: "call_function s r x = Inr (r1, t)" and 2: "navigate t r1 steps = Inr (m, s')"
      by (auto split: sum.splits)
    have "wf_segment (to_string x)"
      using Cons.prems(3) Call by simp
    from Cons.IH [OF 2 call_function_good [OF 1 Cons.prems(2) this]] Cons.prems(3)
    show ?thesis by simp
  qed
qed

lemma read_value_wf:
  assumes "read_property s m ''value'' = Inr (Str p, s')" and "good_state s"
  shows "wf_path p"
proof -
  from assms(1) obtain a ob where m: "m = Ref a" and lk: "lookup s a = Some ob"
    by (auto simp: read_property_def split: jsval.splits option.splits)
  then have ob: "ob \<in> set (heap s)"
    by (auto simp: lookup_def split: if_splits)
  from assms(1) m lk obtain q where q: "map_of (props ob) ''value'' = Some q"
    and rs: "read_slot s q = Inr (Str p, s')"
    by (auto simp: read_property_def split: option.splits)
  from q have "(''value'', q) \<in> set (props ob)" by (rule map_of_SomeD)
  with ob assms(2) have g: "good_slot ''value'' q"
    by (auto simp: good_state_def good_obj_def)
  show ?thesis
  proof (cases q)
    case (DataProperty x w e c)
    with rs g show ?thesis by (simp add: good_slot_def)
  next
    case (AccessorProperty gt e c)
    obtain child w key where gt: "gt = Getter child w key" by (cases gt)
    from rs have "invoke child (template_path w key) s = Inr (Str p, s')"
      by (simp add: AccessorProperty gt)
    from invoke_extends [OF this] show ?thesis by auto
  qed
qed

lemma good_state_init: "good_state init"
  by (simp add: good_state_def init_def)

text \<open>
  Claim C9, as the code has it. Start from the empty store, invoke a schema whose
  declared keys are all non-empty and free of the separator with a root value
  that has no empty segment, and reach a Marker by reading fields and by calling
  keyed containers with keys that stringify to non-empty strings without the
  separator. Then every path a schema was called with has no empty segment, and
  whenever the Marker's \<^verbatim>\<open>value\<close> is a string, it is a sequence of non-empty
  segments joined with the separator. The \<^verbatim>\<open>value\<close> of a Marker is the path its
  schema was called with, unless that schema is a composite that declares a child
  named \<^verbatim>\<open>value\<close>.
\<close>

theorem path_segments_nonempty:
  assumes "wf_path v" and "wf_schema S" and "\<forall>st \<in> set steps. wf_step st"
    and "invoke S v init = Inr (r, s1)"
    and "navigate s1 r steps = Inr (m, s2)"
  shows "(\<forall>(T, q) \<in> set (calls s2). wf_path q)
         \<and> (\<forall>p s3. read_property s2 m ''value'' = Inr (Str p, s3) \<longrightarrow> wf_path p)
         \<and> (\<forall>T q t. well_keyed T \<and> \<not> declares T ''value'' \<longrightarrow>
                (\<exists>a t'. invoke T q t = Inr (Ref a, t')
                   \<and> read_property t' (Ref a) ''value'' = Inr (Str q, t')))"
proof -
  have "good_state s1"
    by (rule invoke_good [OF assms(4) good_state_init assms(2,1)])
  from navigate_good [OF assms(5) this assms(3)] have g: "good_state s2" .
  then have "\<forall>(T, q) \<in> set (calls s2). wf_path q"
    by (simp add: good_state_def)
  moreover have "wf_path p" if "read_property s2 m ''value'' = Inr (Str p, s3)" for p s3
    using read_value_wf [OF that g] .
  moreover have "\<exists>a t'. invoke T q t = Inr (Ref a, t')
                   \<and> read_property t' (Ref a) ''value'' = Inr (Str q, t')"
    if "well_keyed T \<and> \<not> declares T ''value''" for T q t
    using kept_value [of T q t] that by blast
  ultimately show ?thesis by blast
qed


text \<open>
  \<^verbatim>\<open>byKey(simple)("items")(2).value\<close> is \<^verbatim>\<open>"items/2"\<close>, and the second end-to-end
  scenario of the specification gives \<^verbatim>\<open>"root/footer/brands/items/3"\<close>.
\<close>

theorem path_segments_nonempty_witness:
  "wf_path ''items'' \<and> wf_schema (ByKey Simple) \<and> wf_step (Call (NumKey 2))
   \<and> invoke (ByKey Simple) ''items'' init =
       Inr (Ref 0,
            \<lparr>heap = [Obj (marker_props ''items'' 1) (Some (KeyFn Simple ''items'')), attr_obj ''items''],
              calls = [(ByKey Simple, ''items'')]\<rparr>)
   \<and> navigate
         \<lparr>heap = [Obj (marker_props ''items'' 1) (Some (KeyFn Simple ''items'')), attr_obj ''items''],
           calls = [(ByKey Simple, ''items'')]\<rparr> (Ref 0) [Call (NumKey 2)] =
       Inr (Ref 3,
            \<lparr>heap = [Obj (marker_props ''items'' 1) (Some (KeyFn Simple ''items'')), attr_obj ''items'',
                     attr_obj ''items/2'', Obj (marker_props ''items/2'' 2) None],
              calls = [(ByKey Simple, ''items''), (Simple, ''items/2'')]\<rparr>)
   \<and> read_property
         \<lparr>heap = [Obj (marker_props ''items'' 1) (Some (KeyFn Simple ''items'')), attr_obj ''items'',
                  attr_obj ''items/2'', Obj (marker_props ''items/2'' 2) None],
           calls = [(ByKey Simple, ''items''), (Simple, ''items/2'')]\<rparr> (Ref 3) ''value'' =
       Inr (Str ''items/2'',
            \<lparr>heap = [Obj (marker_props ''items'' 1) (Some (KeyFn Simple ''items'')), attr_obj ''items'',
                     attr_obj ''items/2'', Obj (marker_props ''items/2'' 2) None],
              calls = [(ByKey Simple, ''items''), (Simple, ''items/2'')]\<rparr>)
   \<and> wf_path ''items/2''
   \<and> segments ''items/2'' = [''items'', ''2'']
   \<and> run (Complex [(''header'', Simple),
                     (''footer'', Complex [(''brands'', Complex [(''items'', ByKey Simple)])])])
         ''root'' [Field ''footer'', Field ''brands'', Field ''items'', Call (StrKey ''3''), Field ''value'']
       = Inr (Str ''root/footer/brands/items/3'')"
proof -
  let ?s1 = "\<lparr>heap = [Obj (marker_props ''items'' 1) (Some (KeyFn Simple ''items'')), attr_obj ''items''],
           calls = [(ByKey Simple, ''items'')]\<rparr>"
  let ?s2 = "\<lparr>heap = [Obj (marker_props ''items'' 1) (Some (KeyFn Simple ''items'')), attr_obj ''items'',
                     attr_obj ''items/2'', Obj (marker_props ''items/2'' 2) None],
              calls = [(ByKey Simple, ''items''), (Simple, ''items/2'')]\<rparr>"
  have d2: "to_string (NumKey 2) = ''2''"
    by code_simp
  have two: "Suc (Suc 0) = 2"
    by simp
  have h1: "wf_path ''items''"
    by (simp add: wf_path_def)
  have h2: "wf_schema (ByKey Simple)"
    by simp
  have h3: "wf_step (Call (NumKey 2))"
    unfolding wf_step.simps d2 by (simp add: wf_segment_def)
  have h3': "\<forall>st \<in> set [Call (NumKey 2)]. wf_step st"
    using h3 by simp
  have h4: "invoke (ByKey Simple) ''items'' init = Inr (Ref 0, ?s1)"
    by (simp add: invoke_ByKey init_def)
  have h5: "navigate ?s1 (Ref 0) [Call (NumKey 2)] = Inr (Ref 3, ?s2)"
    by (simp add: call_function_def lookup_def invoke_Simple template_path_def d2 two
        del: to_string.simps)
  have h6: "read_property ?s2 (Ref 3) ''value'' = Inr (Str ''items/2'', ?s2)"
    by (simp add: read_property_def lookup_def marker_props_def)
  from path_segments_nonempty [OF h1 h2 h3' h4 h5] h6
  have c: "wf_path ''items/2''"
    by blast
  have sg: "segments ''items/2'' = [''items'', ''2'']"
    by simp
  have sc: "run (Complex [(''header'', Simple),
                     (''footer'', Complex [(''brands'', Complex [(''items'', ByKey Simple)])])])
         ''root'' [Field ''footer'', Field ''brands'', Field ''items'', Call (StrKey ''3''), Field ''value'']
       = Inr (Str ''root/footer/brands/items/3'')"
    by (simp add: run_def invoke_built init_def marker_props_def attr_obj_def read_property_def
      call_function_def lookup_def template_path_def)
  from h1 h2 h3 h4 h5 h6 c sg sc show ?thesis
    by (intro conjI)
qed

text \<open>
  Claim C9 as stated fails for a composite that declares a child named \<^verbatim>\<open>value\<close>,
  a key that is non-empty and free of the separator: the \<^verbatim>\<open>value\<close> of
  \<^verbatim>\<open>complex({ value: simple })("root")\<close> is an object, not a path.
\<close>

theorem path_segments_nonempty_counterexample:
  "wf_path ''root'' \<and> wf_schema (Complex [(''value'', Simple)])
   \<and> run (Complex [(''value'', Simple)]) ''root'' [Field ''value''] = Inr (Ref 3)"
  by (simp add: run_def invoke_built init_def marker_props_def attr_obj_def read_property_def
      lookup_def template_path_def wf_path_def wf_segment_def)

end
